theory Spec2Isabelle
  imports Main
begin

section \<open>The ILOC interface used by the allocator\<close>

text \<open>
  The register allocator of \<^verbatim>\<open>p5-regalloc.c\<close> works on the linear ILOC code of the
  compiler. The header \<^verbatim>\<open>p5-regalloc.h\<close> declares the instruction and operand types,
  the constants \<^verbatim>\<open>WORD_SIZE\<close> and \<^verbatim>\<open>MAX_VIRTUAL_REGS\<close>, and the two
  queries \<^verbatim>\<open>ILOCInsn_get_read_registers\<close> and \<^verbatim>\<open>ILOCInsn_get_write_register\<close>.
  It is not among the sources, so the types follow the way the allocator uses them and
  the constants and the two queries are parameters of every function below.
\<close>

datatype OperandType =
  EMPTY | STACK_REG | BASE_REG | VIRTUAL_REG | PHYSICAL_REG | INT_CONST | OTHER_TAG

text \<open>
  An operand has a tag, a register id (\<^verbatim>\<open>id\<close>) and an immediate
  (\<^verbatim>\<open>imm\<close>). The allocator reads \<^verbatim>\<open>id\<close> only behind a test for the virtual
  register tag, and reads and writes \<^verbatim>\<open>imm\<close> only in the second operand of the frame
  allocator instruction. The model keeps the two fields apart; should the header overlay
  them, the model is that of the lists whose frame allocator instruction has an
  immediate as its second operand.

  Register ids and distances are C \<^verbatim>\<open>int\<close>s that the code only copies, compares
  and counts up along the list, so they are integers here. The one subtraction, of
  \<^verbatim>\<open>WORD_SIZE\<close> from the frame reservation, goes through an \<^verbatim>\<open>int\<close> variable and
  is cut to its width (\<open>to_int\<close> below).
\<close>

record Operand =
  op_type :: OperandType
  op_id :: int
  op_imm :: int

datatype InsnForm =
  STORE_AI | LOAD_AI | PUSH | I2I | ADD_I | CALL | OTHER_FORM nat

text \<open>
  An instruction: its form and the three operand slots \<^verbatim>\<open>op[0]\<close>, \<^verbatim>\<open>op[1]\<close>,
  \<^verbatim>\<open>op[2]\<close>. The \<^verbatim>\<open>next\<close> link is the order of the list that holds the
  instruction.
\<close>

record ILOCInsn =
  form :: InsnForm
  op0 :: Operand
  op1 :: Operand
  op2 :: Operand

text \<open>
  Modelled from the spec: the header's constants and its read/write classification,
  "which operand slots are read" and "which slot, if any, is written", per instruction
  form. \<^verbatim>\<open>WORD_SIZE\<close> and \<^verbatim>\<open>MAX_VIRTUAL_REGS\<close> are positive C constants.
\<close>

record iloc =
  WORD_SIZE :: nat
  MAX_VIRTUAL_REGS :: nat
  reads_slot :: "InsnForm \<Rightarrow> nat \<Rightarrow> bool"
  writes_slot :: "InsnForm \<Rightarrow> nat option"

definition empty_operand :: Operand where
  "empty_operand = \<lparr>op_type = EMPTY, op_id = 0, op_imm = 0\<rparr>"

definition physical_register :: "int \<Rightarrow> Operand" where
  "physical_register pr = \<lparr>op_type = PHYSICAL_REG, op_id = pr, op_imm = 0\<rparr>"

definition virtual_register :: "int \<Rightarrow> Operand" where
  "virtual_register vr = \<lparr>op_type = VIRTUAL_REG, op_id = vr, op_imm = 0\<rparr>"

definition base_register :: Operand where
  "base_register = \<lparr>op_type = BASE_REG, op_id = 0, op_imm = 0\<rparr>"

definition stack_register :: Operand where
  "stack_register = \<lparr>op_type = STACK_REG, op_id = 0, op_imm = 0\<rparr>"

definition int_const :: "int \<Rightarrow> Operand" where
  "int_const c = \<lparr>op_type = INT_CONST, op_id = 0, op_imm = c\<rparr>"

definition ILOCInsn_new_3op :: "InsnForm \<Rightarrow> Operand \<Rightarrow> Operand \<Rightarrow> Operand \<Rightarrow> ILOCInsn" where
  "ILOCInsn_new_3op f a b c = \<lparr>form = f, op0 = a, op1 = b, op2 = c\<rparr>"

definition op_at :: "ILOCInsn \<Rightarrow> nat \<Rightarrow> Operand" where
  "op_at insn i =
     (if i = 0 then op0 insn else if i = 1 then op1 insn
      else if i = 2 then op2 insn else empty_operand)"

text \<open>
  Modelled from the spec: \<^verbatim>\<open>ILOCInsn_get_read_registers\<close> is not among the
  sources. It returns a fresh instruction whose three slots hold the operands the
  given instruction reads; a slot that is not read is empty.
\<close>

definition ILOCInsn_get_read_registers :: "iloc \<Rightarrow> ILOCInsn \<Rightarrow> Operand list" where
  "ILOCInsn_get_read_registers H insn =
     map (\<lambda>i. if reads_slot H (form insn) i then op_at insn i else empty_operand) [0, 1, 2]"

text \<open>
  Modelled from the spec: \<^verbatim>\<open>ILOCInsn_get_write_register\<close> is not among the
  sources. It returns the operand in the slot the instruction writes, or an empty
  operand.
\<close>

definition ILOCInsn_get_write_register :: "iloc \<Rightarrow> ILOCInsn \<Rightarrow> Operand" where
  "ILOCInsn_get_write_register H insn =
     (case writes_slot H (form insn) of None \<Rightarrow> empty_operand | Some i \<Rightarrow> op_at insn i)"

section \<open>Operand rewriting\<close>

definition replace_operand :: "int \<Rightarrow> int \<Rightarrow> Operand \<Rightarrow> Operand" where
  "replace_operand vr pr x =
     (if op_type x = VIRTUAL_REG \<and> op_id x = vr
      then x\<lparr>op_type := PHYSICAL_REG, op_id := pr\<rparr> else x)"

definition replace_register :: "int \<Rightarrow> int \<Rightarrow> ILOCInsn \<Rightarrow> ILOCInsn" where
  "replace_register vr pr insn =
     insn\<lparr>op0 := replace_operand vr pr (op0 insn),
          op1 := replace_operand vr pr (op1 insn),
          op2 := replace_operand vr pr (op2 insn)\<rparr>"

section \<open>The state of the pass\<close>

text \<open>
  The instruction list is held as a zipper around the loop variable \<^verbatim>\<open>insn\<close>:
  \<^item> \<open>processed\<close>: the list from its head up to and including
    \<^verbatim>\<open>last_processed_insn\<close>; it is empty exactly when that pointer is
    \<^verbatim>\<open>NULL\<close>;
  \<^item> \<open>inserted\<close>: the instructions spliced in after \<^verbatim>\<open>last_processed_insn\<close>
    and ahead of \<^verbatim>\<open>insn\<close>. Every splice goes directly after
    \<^verbatim>\<open>last_processed_insn\<close>, so the newest instruction is the first of them;
  \<^item> \<open>todo\<close>: \<^verbatim>\<open>insn\<close> and everything after it.
  The pointer \<^verbatim>\<open>local_allocator_insn\<close> is a reference to a place in one of the
  two lists, or \<open>None\<close> for \<^verbatim>\<open>NULL\<close>.
\<close>

datatype insn_ref = In_processed nat | In_todo nat

record alloc_state =
  phys_reg_map :: "int list"
  offset_arr :: "int \<Rightarrow> int"
  processed :: "ILOCInsn list"
  inserted :: "ILOCInsn list"
  todo :: "ILOCInsn list"
  local_allocator_insn :: "insn_ref option"

datatype error = ConfigError string | NullDereference | OutOfBounds

definition insn_at :: "alloc_state \<Rightarrow> insn_ref \<Rightarrow> ILOCInsn" where
  "insn_at st r = (case r of In_processed i \<Rightarrow> processed st ! i | In_todo i \<Rightarrow> todo st ! i)"

definition update_at :: "insn_ref \<Rightarrow> (ILOCInsn \<Rightarrow> ILOCInsn) \<Rightarrow> alloc_state \<Rightarrow> alloc_state" where
  "update_at r f st =
     (case r of
        In_processed i \<Rightarrow> st\<lparr>processed := (processed st)[i := f (processed st ! i)]\<rparr>
      | In_todo i \<Rightarrow> st\<lparr>todo := (todo st)[i := f (todo st ! i)]\<rparr>)"

definition set_imm1 :: "int \<Rightarrow> ILOCInsn \<Rightarrow> ILOCInsn" where
  "set_imm1 v insn = insn\<lparr>op1 := (op1 insn)\<lparr>op_imm := v\<rparr>\<rparr>"

text \<open>
  The value a 32-bit \<^verbatim>\<open>int\<close> keeps of an integer: its low 32 bits, signed. It is the
  integer itself from \<open>-2147483648\<close> to \<open>2147483647\<close>.
\<close>

definition to_int :: "int \<Rightarrow> int" where
  "to_int x = (x + 2147483648) mod 4294967296 - 2147483648"

text \<open>The whole list, from its head.\<close>

definition stream_of :: "alloc_state \<Rightarrow> ILOCInsn list" where
  "stream_of st = processed st @ inserted st @ todo st"

section \<open>Spill slots\<close>

text \<open>
  \<^verbatim>\<open>insert_spill(pr, prev_insn, local_allocator)\<close>. Every caller passes
  \<^verbatim>\<open>last_processed_insn\<close> and \<^verbatim>\<open>local_allocator_insn\<close>, which the model reads
  from the state. The function first dereferences \<^verbatim>\<open>local_allocator\<close>, then
  \<^verbatim>\<open>prev_insn\<close>; a null pointer there ends the run.
\<close>

definition insert_spill :: "iloc \<Rightarrow> int \<Rightarrow> alloc_state \<Rightarrow> error + (int \<times> alloc_state)" where
  "insert_spill H pr st =
     (case local_allocator_insn st of
        None \<Rightarrow> Inl NullDereference
      | Some la \<Rightarrow>
          let bp_offset = to_int (op_imm (op1 (insn_at st la)) - int (WORD_SIZE H));
              st1 = update_at la (set_imm1 bp_offset) st;
              new_insn = ILOCInsn_new_3op STORE_AI
                           (physical_register pr) base_register (int_const bp_offset)
          in if processed st1 = [] then Inl NullDereference
             else Inr (bp_offset, st1\<lparr>inserted := new_insn # inserted st1\<rparr>))"

definition insert_load :: "int \<Rightarrow> int \<Rightarrow> alloc_state \<Rightarrow> error + alloc_state" where
  "insert_load bp_offset pr st =
     (let new_insn = ILOCInsn_new_3op LOAD_AI
                       base_register (int_const bp_offset) (physical_register pr)
      in if processed st = [] then Inl NullDereference
         else Inr (st\<lparr>inserted := new_insn # inserted st\<rparr>))"

text \<open>
  \<^verbatim>\<open>spill\<close>: the store, then \<^verbatim>\<open>offset_arr[phys_reg_map[pr]] = offset\<close> and
  \<^verbatim>\<open>phys_reg_map[pr] = -1\<close>. An index outside its array is an error of the model.
\<close>

definition spill :: "iloc \<Rightarrow> int \<Rightarrow> alloc_state \<Rightarrow> error + alloc_state" where
  "spill H pr st =
     (case insert_spill H pr st of
        Inl e \<Rightarrow> Inl e
      | Inr (offset, st1) \<Rightarrow>
          if pr < 0 \<or> int (length (phys_reg_map st1)) \<le> pr then Inl OutOfBounds
          else
            let vr = phys_reg_map st1 ! nat pr in
            if vr < 0 \<or> int (MAX_VIRTUAL_REGS H) \<le> vr then Inl OutOfBounds
            else Inr (st1\<lparr>offset_arr := (offset_arr st1)(vr := offset),
                          phys_reg_map := (phys_reg_map st1)[nat pr := -1]\<rparr>))"

section \<open>Next-use distance\<close>

definition reads_vr :: "iloc \<Rightarrow> int \<Rightarrow> ILOCInsn \<Rightarrow> bool" where
  "reads_vr H vr insn =
     list_ex (\<lambda>x. op_type x = VIRTUAL_REG \<and> op_id x = vr) (ILOCInsn_get_read_registers H insn)"

text \<open>
  The loop of \<^verbatim>\<open>dist\<close>: \<open>search\<close> is the list from \<^verbatim>\<open>search_insn\<close> on,
  \<open>d\<close> the counter.
\<close>

fun dist_loop :: "iloc \<Rightarrow> int \<Rightarrow> ILOCInsn list \<Rightarrow> int \<Rightarrow> int" where
  "dist_loop H vr [] d = int (MAX_VIRTUAL_REGS H)"
| "dist_loop H vr (search_insn # search) d =
     (if reads_vr H vr search_insn then d else dist_loop H vr search (d + 1))"

text \<open>
  \<^verbatim>\<open>dist(vr, current_insn)\<close>; the second argument of the model is the list from
  \<^verbatim>\<open>current_insn->next\<close> on.
\<close>

definition dist :: "iloc \<Rightarrow> int \<Rightarrow> ILOCInsn list \<Rightarrow> int" where
  "dist H vr after_current = dist_loop H vr after_current 1"

section \<open>Allocation\<close>

text \<open>
  The second loop of \<^verbatim>\<open>allocate\<close>: one step for register \<open>i\<close>, on the pair
  \<^verbatim>\<open>(max_pr, max_pr_dist)\<close>.
\<close>

definition max_step :: "iloc \<Rightarrow> alloc_state \<Rightarrow> int \<times> int \<Rightarrow> nat \<Rightarrow> int \<times> int" where
  "max_step H st acc i =
     (let current_dist = dist H (phys_reg_map st ! i) (tl (todo st))
      in if current_dist > snd acc then (int i, current_dist) else acc)"

definition max_loop :: "iloc \<Rightarrow> nat \<Rightarrow> alloc_state \<Rightarrow> int \<times> int" where
  "max_loop H num_physical_registers st =
     foldl (max_step H st) (-1, -1) [0..<num_physical_registers]"

definition allocate :: "iloc \<Rightarrow> nat \<Rightarrow> int \<Rightarrow> alloc_state \<Rightarrow> error + (int \<times> alloc_state)" where
  "allocate H num_physical_registers vr st =
     (case find (\<lambda>i. phys_reg_map st ! i = -1) [0..<num_physical_registers] of
        Some i \<Rightarrow> Inr (int i, st\<lparr>phys_reg_map := (phys_reg_map st)[i := vr]\<rparr>)
      | None \<Rightarrow>
          let max_pr = fst (max_loop H num_physical_registers st) in
          (case spill H max_pr st of
             Inl e \<Rightarrow> Inl e
           | Inr st1 \<Rightarrow>
               Inr (max_pr, st1\<lparr>phys_reg_map := (phys_reg_map st1)[nat max_pr := vr]\<rparr>)))"

definition ensure :: "iloc \<Rightarrow> nat \<Rightarrow> int \<Rightarrow> alloc_state \<Rightarrow> error + (int \<times> alloc_state)" where
  "ensure H num_physical_registers vr st =
     (case find (\<lambda>i. phys_reg_map st ! i = vr) [0..<num_physical_registers] of
        Some i \<Rightarrow> Inr (int i, st)
      | None \<Rightarrow>
          (case allocate H num_physical_registers vr st of
             Inl e \<Rightarrow> Inl e
           | Inr (pr, st1) \<Rightarrow>
               if vr < 0 \<or> int (MAX_VIRTUAL_REGS H) \<le> vr then Inl OutOfBounds
               else if offset_arr st1 vr \<noteq> -1
               then (case insert_load (offset_arr st1 vr) pr st1 of
                       Inl e \<Rightarrow> Inl e
                     | Inr st2 \<Rightarrow> Inr (pr, st2))
               else Inr (pr, st1)))"

section \<open>The main pass\<close>

text \<open>The frame allocator is latched at a \<^verbatim>\<open>PUSH\<close> followed by \<^verbatim>\<open>I2I\<close> and \<^verbatim>\<open>ADD_I\<close>.\<close>

definition latch :: "alloc_state \<Rightarrow> alloc_state" where
  "latch st =
     (case todo st of
        insn # n1 # n2 # ns \<Rightarrow>
          if form insn = PUSH \<and> form n1 = I2I \<and> form n2 = ADD_I
          then st\<lparr>local_allocator_insn := Some (In_todo 2)\<rparr> else st
      | _ \<Rightarrow> st)"

definition set_cur :: "(ILOCInsn \<Rightarrow> ILOCInsn) \<Rightarrow> alloc_state \<Rightarrow> alloc_state" where
  "set_cur f st = st\<lparr>todo := f (hd (todo st)) # tl (todo st)\<rparr>"

text \<open>The body of the loop over the read registers, for one of them.\<close>

definition read_operand :: "iloc \<Rightarrow> nat \<Rightarrow> Operand \<Rightarrow> alloc_state \<Rightarrow> error + alloc_state" where
  "read_operand H num_physical_registers rop st =
     (if op_type rop = VIRTUAL_REG then
        let vr = op_id rop in
        (case ensure H num_physical_registers vr st of
           Inl e \<Rightarrow> Inl e
         | Inr (pr, st1) \<Rightarrow>
             let st2 = set_cur (replace_register vr pr) st1 in
             if dist H vr (tl (todo st2)) = int (MAX_VIRTUAL_REGS H)
             then Inr (st2\<lparr>phys_reg_map := (phys_reg_map st2)[nat pr := -1]\<rparr>)
             else Inr st2)
      else Inr st)"

fun read_loop :: "iloc \<Rightarrow> nat \<Rightarrow> Operand list \<Rightarrow> alloc_state \<Rightarrow> error + alloc_state" where
  "read_loop H k [] st = Inr st"
| "read_loop H k (rop # rops) st =
     (case read_operand H k rop st of
        Inl e \<Rightarrow> Inl e
      | Inr st1 \<Rightarrow> read_loop H k rops st1)"

definition read_phase :: "iloc \<Rightarrow> nat \<Rightarrow> alloc_state \<Rightarrow> error + alloc_state" where
  "read_phase H k st = read_loop H k (ILOCInsn_get_read_registers H (hd (todo st))) st"

definition write_phase :: "iloc \<Rightarrow> nat \<Rightarrow> alloc_state \<Rightarrow> error + alloc_state" where
  "write_phase H num_physical_registers st =
     (let write_reg = ILOCInsn_get_write_register H (hd (todo st)) in
      if op_type write_reg = VIRTUAL_REG then
        let vr = op_id write_reg in
        (case allocate H num_physical_registers vr st of
           Inl e \<Rightarrow> Inl e
         | Inr (pr, st1) \<Rightarrow> Inr (set_cur (replace_register vr pr) st1))
      else Inr st)"

fun spill_loop :: "iloc \<Rightarrow> nat list \<Rightarrow> alloc_state \<Rightarrow> error + alloc_state" where
  "spill_loop H [] st = Inr st"
| "spill_loop H (i # is) st =
     (if phys_reg_map st ! i \<noteq> -1
      then (case spill H (int i) st of
              Inl e \<Rightarrow> Inl e
            | Inr st1 \<Rightarrow> spill_loop H is st1)
      else spill_loop H is st)"

definition call_phase :: "iloc \<Rightarrow> nat \<Rightarrow> alloc_state \<Rightarrow> error + alloc_state" where
  "call_phase H num_physical_registers st =
     (if form (hd (todo st)) = CALL then
        if processed st \<noteq> [] then spill_loop H [0..<num_physical_registers] st
        else Inr st
      else Inr st)"

text \<open>One iteration of \<^verbatim>\<open>FOR_EACH\<close>, up to the assignment to \<^verbatim>\<open>last_processed_insn\<close>.\<close>

definition loop_body :: "iloc \<Rightarrow> nat \<Rightarrow> alloc_state \<Rightarrow> error + alloc_state" where
  "loop_body H k st =
     (case read_phase H k (latch st) of
        Inl e \<Rightarrow> Inl e
      | Inr st1 \<Rightarrow>
          (case write_phase H k st1 of
             Inl e \<Rightarrow> Inl e
           | Inr st2 \<Rightarrow> call_phase H k st2))"

text \<open>
  \<^verbatim>\<open>last_processed_insn = insn\<close> and the step of \<^verbatim>\<open>FOR_EACH\<close> to
  \<^verbatim>\<open>insn->next\<close>. A reference to \<^verbatim>\<open>insn\<close> becomes a reference into \<open>processed\<close>.
\<close>

fun shift_ref :: "nat \<Rightarrow> insn_ref \<Rightarrow> insn_ref" where
  "shift_ref n (In_processed i) = In_processed i"
| "shift_ref n (In_todo 0) = In_processed n"
| "shift_ref n (In_todo (Suc j)) = In_todo j"

definition advance :: "alloc_state \<Rightarrow> alloc_state" where
  "advance st =
     st\<lparr>processed := processed st @ inserted st @ [hd (todo st)],
        inserted := [],
        todo := tl (todo st),
        local_allocator_insn :=
          map_option (shift_ref (length (processed st) + length (inserted st)))
            (local_allocator_insn st)\<rparr>"

text \<open>
  The first \<open>n\<close> iterations of \<^verbatim>\<open>FOR_EACH\<close>. The loop ends when the list is
  exhausted or an error ends the run.
\<close>

fun iterations :: "iloc \<Rightarrow> nat \<Rightarrow> nat \<Rightarrow> alloc_state \<Rightarrow> error + alloc_state" where
  "iterations H k 0 st = Inr st"
| "iterations H k (Suc n) st =
     (case todo st of
        [] \<Rightarrow> Inr st
      | insn # rest \<Rightarrow>
          (case loop_body H k st of
             Inl e \<Rightarrow> Inl e
           | Inr st1 \<Rightarrow> iterations H k n (advance st1)))"

text \<open>
  The loop itself: the body leaves the length of \<open>todo\<close> as it is and each step
  takes one instruction off, so the list is exhausted after \<open>length (todo st)\<close>
  iterations (lemma \<open>for_each_exhausts\<close>).
\<close>

definition for_each :: "iloc \<Rightarrow> nat \<Rightarrow> alloc_state \<Rightarrow> error + alloc_state" where
  "for_each H k st = iterations H k (length (todo st)) st"

definition initial_state :: "nat \<Rightarrow> ILOCInsn list \<Rightarrow> alloc_state" where
  "initial_state num_physical_registers insns =
     \<lparr>phys_reg_map = replicate num_physical_registers (-1),
      offset_arr = (\<lambda>i. -1),
      processed = [],
      inserted = [],
      todo = insns,
      local_allocator_insn = None\<rparr>"

text \<open>
  \<^verbatim>\<open>allocate_registers(list, num_physical_registers)\<close>. The list pointer may be
  \<^verbatim>\<open>NULL\<close> (\<open>None\<close>). The result is the error that ended the run, or the list as the
  pass leaves it.
\<close>

text \<open>The message written to \<^verbatim>\<open>stderr\<close> before \<^verbatim>\<open>exit(1)\<close>, with its newline.\<close>

definition config_message :: string where
  "config_message =
     ''Error: no physical registers available for allocation'' @ [CHR 0x0A]"

definition allocate_registers ::
  "iloc \<Rightarrow> ILOCInsn list option \<Rightarrow> int \<Rightarrow> error + ILOCInsn list option" where
  "allocate_registers H list num_physical_registers =
     (if num_physical_registers \<le> 0
      then Inl (ConfigError config_message)
      else
        (case list of
           None \<Rightarrow> Inr None
         | Some insns \<Rightarrow>
             (case for_each H (nat num_physical_registers)
                     (initial_state (nat num_physical_registers) insns) of
                Inl e \<Rightarrow> Inl e
              | Inr st \<Rightarrow> Inr (Some (stream_of st)))))"

section \<open>Predicates on instructions\<close>

text \<open>
  \<open>no_virtual\<close>: no operand slot of the instruction has the virtual register tag.
  \<open>well_formed\<close>: every virtual register operand stands in a slot that the
  instruction reads or writes, so that the allocator sees it.
  \<open>ids_in_range\<close>: every virtual register id is an index of
  \<^verbatim>\<open>offset_arr[MAX_VIRTUAL_REGS]\<close>.
  \<open>lacks v insn\<close>: no operand of the instruction is the virtual register \<open>v\<close>.
\<close>

definition no_virtual :: "ILOCInsn \<Rightarrow> bool" where
  "no_virtual insn =
     (op_type (op0 insn) \<noteq> VIRTUAL_REG \<and> op_type (op1 insn) \<noteq> VIRTUAL_REG \<and>
      op_type (op2 insn) \<noteq> VIRTUAL_REG)"

definition well_formed :: "iloc \<Rightarrow> ILOCInsn \<Rightarrow> bool" where
  "well_formed H insn =
     ((op_type (op0 insn) \<noteq> VIRTUAL_REG \<or> reads_slot H (form insn) 0 \<or>
       writes_slot H (form insn) = Some 0) \<and>
      (op_type (op1 insn) \<noteq> VIRTUAL_REG \<or> reads_slot H (form insn) 1 \<or>
       writes_slot H (form insn) = Some 1) \<and>
      (op_type (op2 insn) \<noteq> VIRTUAL_REG \<or> reads_slot H (form insn) 2 \<or>
       writes_slot H (form insn) = Some 2))"

definition id_in_range :: "iloc \<Rightarrow> Operand \<Rightarrow> bool" where
  "id_in_range H x =
     (op_type x \<noteq> VIRTUAL_REG \<or> (0 \<le> op_id x \<and> op_id x < int (MAX_VIRTUAL_REGS H)))"

definition ids_in_range :: "iloc \<Rightarrow> ILOCInsn \<Rightarrow> bool" where
  "ids_in_range H insn =
     (id_in_range H (op0 insn) \<and> id_in_range H (op1 insn) \<and> id_in_range H (op2 insn))"

definition lacks :: "int \<Rightarrow> ILOCInsn \<Rightarrow> bool" where
  "lacks v insn =
     (\<not> (op_type (op0 insn) = VIRTUAL_REG \<and> op_id (op0 insn) = v) \<and>
      \<not> (op_type (op1 insn) = VIRTUAL_REG \<and> op_id (op1 insn) = v) \<and>
      \<not> (op_type (op2 insn) = VIRTUAL_REG \<and> op_id (op2 insn) = v))"

text \<open>
  \<open>narrows a b\<close>: \<open>b\<close> is \<open>a\<close> after some rewriting by the pass: the same form,
  and every operand either keeps its tag and id or was a virtual register and is a
  physical register now; the immediates are the same but for the second operand, where
  the frame allocator instruction holds its reservation.
\<close>

definition op_narrows :: "Operand \<Rightarrow> Operand \<Rightarrow> bool" where
  "op_narrows x y =
     ((op_type y = op_type x \<and> op_id y = op_id x) \<or>
      (op_type x = VIRTUAL_REG \<and> op_type y = PHYSICAL_REG))"

definition narrows :: "ILOCInsn \<Rightarrow> ILOCInsn \<Rightarrow> bool" where
  "narrows a b =
     (form b = form a \<and>
      op_narrows (op0 a) (op0 b) \<and> op_imm (op0 b) = op_imm (op0 a) \<and>
      op_narrows (op1 a) (op1 b) \<and>
      op_narrows (op2 a) (op2 b) \<and> op_imm (op2 b) = op_imm (op2 a))"

text \<open>
  The two instructions the pass creates, and \<open>spill_code s\<close>: \<open>s\<close> has the shape of
  one of them.
\<close>

definition store_ai :: "int \<Rightarrow> int \<Rightarrow> ILOCInsn" where
  "store_ai pr bp_offset =
     ILOCInsn_new_3op STORE_AI (physical_register pr) base_register (int_const bp_offset)"

definition load_ai :: "int \<Rightarrow> int \<Rightarrow> ILOCInsn" where
  "load_ai bp_offset pr =
     ILOCInsn_new_3op LOAD_AI base_register (int_const bp_offset) (physical_register pr)"

definition spill_code :: "ILOCInsn \<Rightarrow> bool" where
  "spill_code s =
     ((form s = STORE_AI \<and> op_type (op0 s) = PHYSICAL_REG \<and> op_type (op1 s) = BASE_REG \<and>
       op_type (op2 s) = INT_CONST) \<or>
      (form s = LOAD_AI \<and> op_type (op0 s) = BASE_REG \<and> op_type (op1 s) = INT_CONST \<and>
       op_type (op2 s) = PHYSICAL_REG))"

text \<open>
  \<open>weave xs ys\<close>: \<open>ys\<close> is \<open>xs\<close>, instruction by instruction and in the same
  order, each one rewritten as \<open>narrows\<close> says, with spill stores and reloads in
  between.
\<close>

fun weave :: "ILOCInsn list \<Rightarrow> ILOCInsn list \<Rightarrow> bool" where
  "weave xs [] = (xs = [])"
| "weave xs (y # ys) =
     ((spill_code y \<and> weave xs ys) \<or>
      (case xs of [] \<Rightarrow> False | x # xs' \<Rightarrow> narrows x y \<and> weave xs' ys))"

text \<open>
  \<open>store_count\<close>: the number of \<^verbatim>\<open>STORE_AI\<close> instructions of a list.
  \<open>spilled_registers\<close>: the physical registers that a list of stores saves.
\<close>

definition store_count :: "ILOCInsn list \<Rightarrow> nat" where
  "store_count xs = length (filter (\<lambda>s. form s = STORE_AI) xs)"

definition spilled_registers :: "ILOCInsn list \<Rightarrow> int list" where
  "spilled_registers new = map (\<lambda>s. op_id (op0 s)) new"

text \<open>
  Lists with a frame. \<open>framed_prefix\<close>: no instruction up to and including the
  \<^verbatim>\<open>PUSH\<close> of the first prologue (\<^verbatim>\<open>PUSH\<close>, \<^verbatim>\<open>I2I\<close>, \<^verbatim>\<open>ADD_I\<close>) has a
  virtual register operand, so the frame allocator is latched before the first
  allocation. \<open>prologue_at xs\<close>: the list \<open>xs\<close> begins with a prologue, which is
  when the pass latches the frame allocator at its first instruction.
  \<open>no_prologue m xs\<close>: none of the first \<open>m\<close> instructions of \<open>xs\<close> begins a
  prologue, so that the pass keeps the frame allocator it has while it processes them.
\<close>

fun framed_prefix :: "ILOCInsn list \<Rightarrow> bool" where
  "framed_prefix (p # i # a # rest) =
     (no_virtual p \<and>
      ((form p = PUSH \<and> form i = I2I \<and> form a = ADD_I) \<or> framed_prefix (i # a # rest)))"
| "framed_prefix _ = False"

fun prologue_at :: "ILOCInsn list \<Rightarrow> bool" where
  "prologue_at (p # i # a # rest) = (form p = PUSH \<and> form i = I2I \<and> form a = ADD_I)"
| "prologue_at _ = False"

fun no_prologue :: "nat \<Rightarrow> ILOCInsn list \<Rightarrow> bool" where
  "no_prologue 0 xs = True"
| "no_prologue (Suc m) [] = True"
| "no_prologue (Suc m) (x # xs) = (\<not> prologue_at (x # xs) \<and> no_prologue m xs)"

section \<open>Predicates on the register file and the state\<close>

text \<open>
  \<open>all_free\<close>: no register is resident. \<open>register_file_ok\<close>: no virtual register
  is resident in two physical registers. \<open>entry_ok\<close>: an entry is free or an index of
  \<^verbatim>\<open>offset_arr\<close>. \<open>resident_dist H st i\<close>: the next-use distance, from the current
  instruction, of the resident of register \<open>i\<close>. \<open>write_is_fresh\<close>: the register the
  current instruction writes, if it is a virtual one, is not resident.
\<close>

definition all_free :: "int list \<Rightarrow> bool" where
  "all_free m = list_all (\<lambda>v. v = -1) m"

definition register_file_ok :: "int list \<Rightarrow> bool" where
  "register_file_ok m = distinct (filter (\<lambda>v. v \<noteq> -1) m)"

definition entry_ok :: "iloc \<Rightarrow> int \<Rightarrow> bool" where
  "entry_ok H v = (v = -1 \<or> (0 \<le> v \<and> v < int (MAX_VIRTUAL_REGS H)))"

definition resident_dist :: "iloc \<Rightarrow> alloc_state \<Rightarrow> nat \<Rightarrow> int" where
  "resident_dist H st i = dist H (phys_reg_map st ! i) (tl (todo st))"

definition write_is_fresh :: "iloc \<Rightarrow> alloc_state \<Rightarrow> bool" where
  "write_is_fresh H st =
     (op_type (ILOCInsn_get_write_register H (hd (todo st))) \<noteq> VIRTUAL_REG \<or>
      op_id (ILOCInsn_get_write_register H (hd (todo st))) \<notin> set (phys_reg_map st))"

text \<open>
  The frame allocator instruction. \<open>la_valid\<close>: the reference
  \<^verbatim>\<open>local_allocator_insn\<close> points into its list (in C the pointer is to a node of
  the list; lemmas \<open>latch_la_valid\<close>, \<open>frame_steps_la_valid\<close> and
  \<open>advance_la_valid\<close> show that the pass keeps it so). \<open>la_near\<close>: between two
  iterations the frame allocator instruction, if it is still to come, is the current
  instruction or the one after it. \<open>frame_imm\<close>: the immediate of
  the instruction, its frame reservation. \<open>next_offset\<close>: the offset the next
  \<open>insert_spill\<close> returns.
\<close>

definition ref_valid :: "alloc_state \<Rightarrow> insn_ref \<Rightarrow> bool" where
  "ref_valid st r =
     (case r of
        In_processed i \<Rightarrow> i < length (processed st)
      | In_todo i \<Rightarrow> i < length (todo st))"

definition la_valid :: "alloc_state \<Rightarrow> bool" where
  "la_valid st = (case local_allocator_insn st of None \<Rightarrow> True | Some r \<Rightarrow> ref_valid st r)"

definition la_near :: "alloc_state \<Rightarrow> bool" where
  "la_near st =
     (case local_allocator_insn st of Some (In_todo j) \<Rightarrow> j < 2 | _ \<Rightarrow> True)"

definition frame_imm :: "alloc_state \<Rightarrow> int" where
  "frame_imm st =
     (case local_allocator_insn st of None \<Rightarrow> 0 | Some r \<Rightarrow> op_imm (op1 (insn_at st r)))"

definition next_offset :: "iloc \<Rightarrow> alloc_state \<Rightarrow> int" where
  "next_offset H st = to_int (frame_imm st - int (WORD_SIZE H))"

section \<open>Relations between the states of the pass\<close>

text \<open>
  \<open>evolves st st'\<close>: the lists of \<open>st'\<close> are those of \<open>st\<close>, narrowed, with new
  spill stores and reloads spliced in front of \<open>inserted\<close>.
  \<open>pass_inv\<close> and \<open>weave_inv\<close>: what holds of the lists between two iterations.
\<close>

definition evolves :: "alloc_state \<Rightarrow> alloc_state \<Rightarrow> bool" where
  "evolves st st' =
     (list_all2 narrows (processed st) (processed st') \<and>
      list_all2 narrows (todo st) (todo st') \<and>
      (\<exists>new. inserted st' = new @ inserted st \<and> list_all spill_code new))"

definition pass_inv :: "iloc \<Rightarrow> alloc_state \<Rightarrow> bool" where
  "pass_inv H st =
     (list_all no_virtual (processed st) \<and> list_all no_virtual (inserted st) \<and>
      list_all (well_formed H) (todo st))"

definition weave_inv :: "ILOCInsn list \<Rightarrow> alloc_state \<Rightarrow> bool" where
  "weave_inv insns st =
     (\<exists>finished rest. insns = finished @ rest \<and>
        weave finished (processed st @ inserted st) \<and>
        list_all2 narrows rest (todo st))"

text \<open>
  \<open>frame_steps H st st' n\<close>: from \<open>st\<close> to \<open>st'\<close>, with the same frame allocator,
  \<open>n\<close> stores were spliced in (none while no frame allocator is latched) and, if a C
  \<^verbatim>\<open>int\<close> holds the result, the frame reservation fell by \<open>n\<close> words; of the
  instructions to come, only the current one and the frame allocator instruction may
  differ. \<open>imm_steps\<close> relates the store count of the whole list and the frame
  reservation in the same way, across iterations.
\<close>

definition frame_steps :: "iloc \<Rightarrow> alloc_state \<Rightarrow> alloc_state \<Rightarrow> nat \<Rightarrow> bool" where
  "frame_steps H st st' n =
     (local_allocator_insn st' = local_allocator_insn st \<and>
      length (processed st') = length (processed st) \<and>
      length (todo st') = length (todo st) \<and>
      store_count (inserted st') = store_count (inserted st) + n \<and>
      (local_allocator_insn st = None \<longrightarrow> n = 0) \<and>
      (\<forall>l. 0 < l \<and> local_allocator_insn st \<noteq> Some (In_todo l) \<longrightarrow>
           todo st' ! l = todo st ! l) \<and>
      (\<not> (frame_imm st < 2147483648 \<and>
           - 2147483648 \<le> frame_imm st - int (WORD_SIZE H) * int n) \<or>
       frame_imm st' = frame_imm st - int (WORD_SIZE H) * int n))"

definition imm_steps :: "iloc \<Rightarrow> alloc_state \<Rightarrow> alloc_state \<Rightarrow> nat \<Rightarrow> bool" where
  "imm_steps H st st' n =
     (store_count (stream_of st') = store_count (stream_of st) + n \<and>
      (\<not> (frame_imm st < 2147483648 \<and>
           - 2147483648 \<le> frame_imm st - int (WORD_SIZE H) * int n) \<or>
       frame_imm st' = frame_imm st - int (WORD_SIZE H) * int n))"

text \<open>
  \<open>offsets_tracked st st'\<close>: every offset of \<open>offset_arr\<close> that differs in \<open>st'\<close>
  is the offset of a store spliced in between.
\<close>

definition offsets_tracked :: "alloc_state \<Rightarrow> alloc_state \<Rightarrow> bool" where
  "offsets_tracked st st' =
     (\<exists>new. inserted st' = new @ inserted st \<and>
        (\<forall>v. offset_arr st' v = offset_arr st v \<or>
             (\<exists>pr. store_ai pr (offset_arr st' v) \<in> set new)))"

text \<open>
  States in which no operation of the pass fails. \<open>ready\<close>: an instruction has been
  processed, the frame allocator is latched, and every id in the register file and in
  the instructions to come is an index of \<^verbatim>\<open>offset_arr\<close>. \<open>quiet\<close>: the state
  before that, while the instructions have no virtual register operand and the register
  file is empty.
\<close>

definition ready :: "iloc \<Rightarrow> nat \<Rightarrow> alloc_state \<Rightarrow> bool" where
  "ready H k st =
     (0 < k \<and> length (phys_reg_map st) = k \<and> list_all (entry_ok H) (phys_reg_map st) \<and>
      list_all (ids_in_range H) (todo st) \<and> processed st \<noteq> [] \<and>
      local_allocator_insn st \<noteq> None \<and> la_valid st)"

definition quiet :: "iloc \<Rightarrow> nat \<Rightarrow> alloc_state \<Rightarrow> bool" where
  "quiet H k st =
     (0 < k \<and> length (phys_reg_map st) = k \<and> all_free (phys_reg_map st) \<and>
      list_all (ids_in_range H) (todo st) \<and> framed_prefix (todo st) \<and> la_valid st)"

section \<open>Reading the result of a run\<close>

text \<open>
  Whether an operation returned (\<open>succeeds\<close>) and the state it returned
  (\<open>state_of\<close>); whether \<open>allocate_registers\<close> completed on a list (\<open>completes\<close>)
  and the list it left (\<open>output_of\<close>); the register, the register file and the spliced
  instructions that \<open>allocate\<close> returned (\<open>allocated\<close>).
\<close>

definition succeeds :: "error + 'a \<Rightarrow> bool" where
  "succeeds r = (case r of Inl e \<Rightarrow> False | Inr x \<Rightarrow> True)"

definition state_of :: "error + alloc_state \<Rightarrow> alloc_state" where
  "state_of r = (case r of Inl e \<Rightarrow> initial_state 0 [] | Inr st \<Rightarrow> st)"

definition completes :: "error + ILOCInsn list option \<Rightarrow> bool" where
  "completes r = (case r of Inr (Some out) \<Rightarrow> True | _ \<Rightarrow> False)"

definition output_of :: "error + ILOCInsn list option \<Rightarrow> ILOCInsn list" where
  "output_of r = (case r of Inr (Some out) \<Rightarrow> out | _ \<Rightarrow> [])"

definition allocated ::
  "error + (int \<times> alloc_state) \<Rightarrow> (int \<times> int list \<times> ILOCInsn list) option" where
  "allocated r =
     (case r of Inl e \<Rightarrow> None | Inr (pr, st) \<Rightarrow> Some (pr, phys_reg_map st, inserted st))"

section \<open>A header instance and instructions for worked examples\<close>

text \<open>
  The concrete runs below use 8-byte words, 2048 virtual registers and this
  classification: \<open>OTHER_FORM 0\<close> loads a constant into slot 1, \<open>OTHER_FORM 1\<close> is a
  three-address operation from slots 0 and 1 into slot 2, \<open>OTHER_FORM 2\<close> has no
  register operand, \<open>OTHER_FORM 3\<close> reads all three slots.
\<close>

definition example_iloc :: iloc where
  "example_iloc =
     \<lparr>WORD_SIZE = 8, MAX_VIRTUAL_REGS = 2048,
      reads_slot = (\<lambda>f i. case f of
          STORE_AI \<Rightarrow> i = 0 \<or> i = 1
        | LOAD_AI \<Rightarrow> i = 0
        | PUSH \<Rightarrow> i = 0
        | I2I \<Rightarrow> i = 0
        | ADD_I \<Rightarrow> i = 0
        | CALL \<Rightarrow> False
        | OTHER_FORM n \<Rightarrow> (n = 1 \<and> (i = 0 \<or> i = 1)) \<or> n = 3),
      writes_slot = (\<lambda>f. case f of
          STORE_AI \<Rightarrow> None
        | LOAD_AI \<Rightarrow> Some 2
        | PUSH \<Rightarrow> None
        | I2I \<Rightarrow> Some 1
        | ADD_I \<Rightarrow> Some 2
        | CALL \<Rightarrow> None
        | OTHER_FORM n \<Rightarrow> (if n = 0 then Some 1 else if n = 1 then Some 2 else None))\<rparr>"

text \<open>
  \<^verbatim>\<open>loadI c => v\<close>, \<^verbatim>\<open>add a, b => c\<close> on virtual registers, an instruction
  without operands, a call, and the prologue
  \<^verbatim>\<open>push BP; i2i SP => BP; addI SP, x => SP\<close>.
\<close>

definition load_i :: "int \<Rightarrow> int \<Rightarrow> ILOCInsn" where
  "load_i c v =
     ILOCInsn_new_3op (OTHER_FORM 0) (int_const c) (virtual_register v) empty_operand"

definition add3 :: "int \<Rightarrow> int \<Rightarrow> int \<Rightarrow> ILOCInsn" where
  "add3 a b c =
     ILOCInsn_new_3op (OTHER_FORM 1)
       (virtual_register a) (virtual_register b) (virtual_register c)"

definition nop :: ILOCInsn where
  "nop = ILOCInsn_new_3op (OTHER_FORM 2) empty_operand empty_operand empty_operand"

definition call_insn :: ILOCInsn where
  "call_insn = ILOCInsn_new_3op CALL empty_operand empty_operand empty_operand"

definition prologue :: "int \<Rightarrow> ILOCInsn list" where
  "prologue x =
     [ILOCInsn_new_3op PUSH base_register empty_operand empty_operand,
      ILOCInsn_new_3op I2I stack_register base_register empty_operand,
      ILOCInsn_new_3op ADD_I stack_register (int_const x) stack_register]"

text \<open>
  \<open>furthest_example\<close>: four registers hold the virtual registers 10 to 13, whose next
  reads are 3, 7, 7 and 1 instructions after the current one.
\<close>

definition furthest_example :: alloc_state where
  "furthest_example =
     \<lparr>phys_reg_map = [10, 11, 12, 13],
      offset_arr = (\<lambda>i. -1),
      processed = prologue 0,
      inserted = [],
      todo = [load_i 5 30, add3 13 13 20, nop, add3 10 10 21, nop, nop, nop, add3 11 12 22],
      local_allocator_insn = Some (In_processed 2)\<rparr>"

text \<open>
  \<open>reload_example\<close>: two values live across a call. \<open>call_example\<close> is the state of
  the pass over it, with two registers, when it reaches the call.
\<close>

definition reload_example :: "ILOCInsn list" where
  "reload_example = prologue 0 @ [load_i 1 1, load_i 2 2, call_insn, add3 1 2 3]"

definition call_example :: alloc_state where
  "call_example = state_of (iterations example_iloc 2 5 (initial_state 2 reload_example))"

text \<open>
  \<open>rewrite_example\<close>: a virtual register written twice. \<open>offsets_example\<close>: a value
  live across two calls. \<open>frame_example\<close>: a frame that holds 16 bytes of locals.
  \<open>unframed_example\<close>: a list without a prologue.
\<close>

definition rewrite_example :: "ILOCInsn list" where
  "rewrite_example = [load_i 1 1, load_i 2 1, add3 1 1 2]"

definition offsets_example :: "ILOCInsn list" where
  "offsets_example =
     prologue 0 @ [load_i 1 1, call_insn, add3 1 1 2, call_insn, add3 1 2 3]"

definition frame_example :: "ILOCInsn list" where
  "frame_example = prologue (-16) @ [load_i 1 1, load_i 2 2]"

definition unframed_example :: "ILOCInsn list" where
  "unframed_example = [add3 1 2 3, add3 1 1 4]"

text \<open>
  \<open>frames_example\<close>: a label, a function whose frame holds 16 bytes of locals and
  which pushes an argument, and a second function.
\<close>

definition push_arg :: "int \<Rightarrow> ILOCInsn" where
  "push_arg v = ILOCInsn_new_3op PUSH (virtual_register v) empty_operand empty_operand"

definition frames_example :: "ILOCInsn list" where
  "frames_example =
     nop # prologue (-16) @ [load_i 1 1, load_i 2 2, push_arg 2, add3 1 2 3] @
     prologue 0 @ [load_i 4 4]"

section \<open>Lemmas: how the operations change the lists\<close>

lemma narrows_refl [simp]: "narrows a a"
  by (simp add: narrows_def op_narrows_def)

lemma narrows_trans: "narrows a b \<Longrightarrow> narrows b c \<Longrightarrow> narrows a c"
  by (auto simp: narrows_def op_narrows_def)

lemma list_all2_narrows_refl [simp]: "list_all2 narrows xs xs"
  by (simp add: list_all2_refl)

lemma list_all2_narrows_trans:
  "list_all2 narrows xs ys \<Longrightarrow> list_all2 narrows ys zs \<Longrightarrow> list_all2 narrows xs zs"
  using list_all2_trans [of narrows narrows narrows] narrows_trans by blast

lemma evolves_refl [simp]: "evolves st st"
  by (simp add: evolves_def)

lemma evolves_trans: "evolves a b \<Longrightarrow> evolves b c \<Longrightarrow> evolves a c"
  unfolding evolves_def
  by (auto intro: list_all2_narrows_trans)

lemma narrows_set_imm1 [simp]: "narrows a (set_imm1 v a)"
  by (simp add: narrows_def op_narrows_def set_imm1_def)

lemma list_all2_narrows_update:
  "list_all2 narrows xs (xs[i := set_imm1 v (xs ! i)])"
  by (cases "i < length xs") (auto simp: list_all2_conv_all_nth nth_list_update)

lemma evolves_update_at: "evolves st (update_at r (set_imm1 v) st)"
  by (cases r) (simp_all add: evolves_def update_at_def list_all2_narrows_update)

lemma spill_code_store [simp]:
  "spill_code (ILOCInsn_new_3op STORE_AI (physical_register pr) base_register (int_const c))"
  by (simp add: spill_code_def ILOCInsn_new_3op_def physical_register_def base_register_def int_const_def)

lemma spill_code_load [simp]:
  "spill_code (ILOCInsn_new_3op LOAD_AI base_register (int_const c) (physical_register pr))"
  by (simp add: spill_code_def ILOCInsn_new_3op_def physical_register_def base_register_def int_const_def)

lemma spill_code_no_virtual: "spill_code s \<Longrightarrow> no_virtual s"
  by (auto simp: spill_code_def no_virtual_def)

lemma evolves_cons_inserted:
  "spill_code x \<Longrightarrow> evolves st (st\<lparr>inserted := x # inserted st\<rparr>)"
  by (simp add: evolves_def)

lemma evolves_map_upd [simp]:
  "evolves st (st\<lparr>phys_reg_map := m\<rparr>)" "evolves st (st\<lparr>offset_arr := f, phys_reg_map := m\<rparr>)"
  by (simp_all add: evolves_def)

lemma evolves_insert_spill:
  "insert_spill H pr st = Inr (off, st') \<Longrightarrow> evolves st st'"
  unfolding insert_spill_def Let_def
  by (auto split: option.splits if_splits
      intro!: evolves_trans [OF evolves_update_at evolves_cons_inserted])

lemma evolves_insert_load:
  "insert_load off pr st = Inr st' \<Longrightarrow> evolves st st'"
  unfolding insert_load_def Let_def
  by (auto split: if_splits intro!: evolves_cons_inserted)

lemma evolves_spill: "spill H pr st = Inr st' \<Longrightarrow> evolves st st'"
  unfolding spill_def Let_def
  by (auto split: sum.splits if_splits prod.splits
      dest!: evolves_insert_spill intro: evolves_trans [OF _ evolves_map_upd(2)])

lemma evolves_allocate: "allocate H k vr st = Inr (pr, st') \<Longrightarrow> evolves st st'"
  unfolding allocate_def Let_def
  by (auto split: option.splits sum.splits dest!: evolves_spill intro: evolves_trans [OF _ evolves_map_upd(1)])

lemma evolves_ensure: "ensure H k vr st = Inr (pr, st') \<Longrightarrow> evolves st st'"
  unfolding ensure_def
  by (auto split: option.splits sum.splits if_splits prod.splits
      dest!: evolves_allocate evolves_insert_load intro: evolves_trans)

lemma narrows_replace [simp]: "narrows a (replace_register v pr a)"
  by (simp add: narrows_def op_narrows_def replace_register_def replace_operand_def)

lemma lacks_replace [simp]: "lacks v (replace_register v pr a)"
  by (simp add: lacks_def replace_register_def replace_operand_def)

lemma lacks_narrows: "lacks v a \<Longrightarrow> narrows a b \<Longrightarrow> lacks v b"
  by (auto simp: lacks_def narrows_def op_narrows_def)

lemma no_virtual_narrows: "no_virtual a \<Longrightarrow> narrows a b \<Longrightarrow> no_virtual b"
  by (auto simp: no_virtual_def narrows_def op_narrows_def)

lemma well_formed_narrows: "well_formed H a \<Longrightarrow> narrows a b \<Longrightarrow> well_formed H b"
  by (auto simp: well_formed_def narrows_def op_narrows_def)

lemma list_all_narrows:
  assumes "\<And>a b. P a \<Longrightarrow> narrows a b \<Longrightarrow> P b"
  shows "list_all2 narrows xs ys \<Longrightarrow> list_all P xs \<Longrightarrow> list_all P ys"
  by (induction xs ys rule: list_all2_induct) (auto intro: assms)

lemma evolves_set_cur:
  assumes "\<And>a. narrows a (f a)" and "todo st \<noteq> []"
  shows "evolves st (set_cur f st)"
  using assms by (cases "todo st") (auto simp: evolves_def set_cur_def)

lemma evolves_todo_nonempty: "evolves st st' \<Longrightarrow> todo st \<noteq> [] \<Longrightarrow> todo st' \<noteq> []"
  by (auto simp: evolves_def)

lemma evolves_hd: "evolves st st' \<Longrightarrow> todo st \<noteq> [] \<Longrightarrow> narrows (hd (todo st)) (hd (todo st'))"
  by (cases "todo st"; cases "todo st'") (auto simp: evolves_def)

lemma evolves_length_todo: "evolves st st' \<Longrightarrow> length (todo st') = length (todo st)"
  by (auto simp: evolves_def dest: list_all2_lengthD)

lemma read_operand_evolves:
  assumes "read_operand H k rop st = Inr st'" and "todo st \<noteq> []"
  shows "evolves st st'"
proof (cases "op_type rop = VIRTUAL_REG")
  case False
  with assms show ?thesis by (simp add: read_operand_def)
next
  case True
  with assms obtain pr st1 where e: "ensure H k (op_id rop) st = Inr (pr, st1)"
    by (auto simp: read_operand_def Let_def split: sum.splits)
  have 1: "evolves st st1" using e by (rule evolves_ensure)
  then have ne: "todo st1 \<noteq> []" using assms(2) by (rule evolves_todo_nonempty)
  have 2: "evolves st1 (set_cur (replace_register (op_id rop) pr) st1)"
    by (rule evolves_set_cur) (simp_all add: ne)
  from assms(1) True e have
    "st' = set_cur (replace_register (op_id rop) pr) st1 \<or>
     (\<exists>m. st' = (set_cur (replace_register (op_id rop) pr) st1)\<lparr>phys_reg_map := m\<rparr>)"
    by (auto simp: read_operand_def Let_def split: if_splits)
  then show ?thesis
    using evolves_trans [OF 1 2] evolves_trans [OF evolves_trans [OF 1 2] evolves_map_upd(1)]
    by auto
qed

lemma read_operand_lacks:
  assumes "read_operand H k rop st = Inr st'" and "todo st \<noteq> []" and "op_type rop = VIRTUAL_REG"
  shows "lacks (op_id rop) (hd (todo st'))"
proof -
  from assms obtain pr st1 where e: "ensure H k (op_id rop) st = Inr (pr, st1)"
    by (auto simp: read_operand_def Let_def split: sum.splits)
  from assms(1,3) e have
    "todo st' = todo (set_cur (replace_register (op_id rop) pr) st1)"
    by (auto simp: read_operand_def Let_def split: if_splits)
  then show ?thesis by (simp add: set_cur_def)
qed

lemma read_loop_evolves:
  "read_loop H k rops st = Inr st' \<Longrightarrow> todo st \<noteq> [] \<Longrightarrow> evolves st st'"
proof (induction rops arbitrary: st)
  case Nil
  then show ?case by simp
next
  case (Cons rop rops)
  from Cons.prems obtain st1 where 1: "read_operand H k rop st = Inr st1"
    and 2: "read_loop H k rops st1 = Inr st'"
    by (auto split: sum.splits)
  have e1: "evolves st st1" using 1 Cons.prems(2) by (rule read_operand_evolves)
  then have "todo st1 \<noteq> []" using Cons.prems(2) by (rule evolves_todo_nonempty)
  with Cons.IH 2 have "evolves st1 st'" by blast
  with e1 show ?case by (rule evolves_trans)
qed

lemma read_loop_lacks:
  "read_loop H k rops st = Inr st' \<Longrightarrow> todo st \<noteq> [] \<Longrightarrow> rop \<in> set rops \<Longrightarrow>
   op_type rop = VIRTUAL_REG \<Longrightarrow> lacks (op_id rop) (hd (todo st'))"
proof (induction rops arbitrary: st)
  case Nil
  then show ?case by simp
next
  case (Cons r rops)
  from Cons.prems obtain st1 where 1: "read_operand H k r st = Inr st1"
    and 2: "read_loop H k rops st1 = Inr st'"
    by (auto split: sum.splits)
  have e1: "evolves st st1" using 1 Cons.prems(2) by (rule read_operand_evolves)
  then have ne: "todo st1 \<noteq> []" using Cons.prems(2) by (rule evolves_todo_nonempty)
  show ?case
  proof (cases "rop \<in> set rops")
    case True
    with Cons.IH 2 ne Cons.prems(4) show ?thesis by blast
  next
    case False
    with Cons.prems(3) have "rop = r" by simp
    with 1 Cons.prems have "lacks (op_id rop) (hd (todo st1))"
      by (auto intro: read_operand_lacks)
    moreover have "narrows (hd (todo st1)) (hd (todo st'))"
      using read_loop_evolves [OF 2 ne] ne by (rule evolves_hd)
    ultimately show ?thesis by (rule lacks_narrows)
  qed
qed

lemma write_phase_evolves:
  assumes "write_phase H k st = Inr st'" and "todo st \<noteq> []"
  shows "evolves st st'"
proof (cases "op_type (ILOCInsn_get_write_register H (hd (todo st))) = VIRTUAL_REG")
  case False
  with assms show ?thesis by (simp add: write_phase_def Let_def)
next
  case True
  with assms obtain pr st1 where
    a: "allocate H k (op_id (ILOCInsn_get_write_register H (hd (todo st)))) st = Inr (pr, st1)"
    and s: "st' = set_cur (replace_register (op_id (ILOCInsn_get_write_register H (hd (todo st)))) pr) st1"
    by (auto simp: write_phase_def Let_def split: sum.splits)
  have 1: "evolves st st1" using a by (rule evolves_allocate)
  then have ne: "todo st1 \<noteq> []" using assms(2) by (rule evolves_todo_nonempty)
  have "evolves st1 st'" unfolding s by (rule evolves_set_cur) (simp_all add: ne)
  with 1 show ?thesis by (rule evolves_trans)
qed

lemma write_phase_lacks:
  assumes "write_phase H k st = Inr st'" and "todo st \<noteq> []"
    and "op_type (ILOCInsn_get_write_register H (hd (todo st))) = VIRTUAL_REG"
  shows "lacks (op_id (ILOCInsn_get_write_register H (hd (todo st)))) (hd (todo st'))"
  using assms by (auto simp: write_phase_def Let_def set_cur_def split: sum.splits)

lemma spill_loop_evolves: "spill_loop H is st = Inr st' \<Longrightarrow> evolves st st'"
proof (induction "is" arbitrary: st)
  case Nil
  then show ?case by simp
next
  case (Cons i "is")
  show ?case
  proof (cases "phys_reg_map st ! i \<noteq> -1")
    case False
    with Cons show ?thesis by simp
  next
    case True
    with Cons.prems obtain st1 where 1: "spill H (int i) st = Inr st1"
      and 2: "spill_loop H is st1 = Inr st'"
      by (auto split: sum.splits)
    from evolves_spill [OF 1] Cons.IH [OF 2] show ?thesis by (rule evolves_trans)
  qed
qed

lemma call_phase_evolves: "call_phase H k st = Inr st' \<Longrightarrow> evolves st st'"
  by (auto simp: call_phase_def split: if_splits dest: spill_loop_evolves)

lemma latch_evolves [simp]: "evolves st (latch st)"
  by (auto simp: latch_def evolves_def split: list.splits)

lemma latch_todo [simp]: "todo (latch st) = todo st"
  by (auto simp: latch_def split: list.splits)

lemma loop_body_evolves:
  assumes "loop_body H k st = Inr st'" and "todo st \<noteq> []"
  shows "evolves st st'"
proof -
  from assms(1) obtain s1 s2 where r: "read_phase H k (latch st) = Inr s1"
    and w: "write_phase H k s1 = Inr s2" and c: "call_phase H k s2 = Inr st'"
    by (auto simp: loop_body_def split: sum.splits)
  have e1: "evolves (latch st) s1"
    using r assms(2) unfolding read_phase_def by (auto intro: read_loop_evolves)
  then have n1: "todo s1 \<noteq> []" using assms(2) by (auto dest: evolves_todo_nonempty)
  have e2: "evolves s1 s2" using w n1 by (rule write_phase_evolves)
  have e3: "evolves s2 st'" using c by (rule call_phase_evolves)
  from evolves_trans [OF latch_evolves evolves_trans [OF e1 evolves_trans [OF e2 e3]]]
  show ?thesis .
qed

subsection \<open>The current instruction after one iteration\<close>

lemma op_at_cases: "i < 3 \<Longrightarrow> i = 0 \<or> i = 1 \<or> i = 2" for i :: nat
  by arith

lemma narrows_op_at: "narrows a b \<Longrightarrow> op_narrows (op_at a i) (op_at b i)"
  by (auto simp: narrows_def op_at_def op_narrows_def empty_operand_def)

lemma lacks_op_at:
  "lacks v a \<Longrightarrow> i < 3 \<Longrightarrow> op_type (op_at a i) = VIRTUAL_REG \<Longrightarrow> op_id (op_at a i) \<noteq> v"
  by (auto simp: lacks_def op_at_def split: if_splits)

lemma well_formed_op_at:
  "well_formed H a \<Longrightarrow> i < 3 \<Longrightarrow> op_type (op_at a i) = VIRTUAL_REG \<Longrightarrow>
   reads_slot H (form a) i \<or> writes_slot H (form a) = Some i"
  using op_at_cases [of i] by (auto simp: well_formed_def op_at_def)

lemma no_virtual_op_at: "no_virtual a = (\<forall>i<3. op_type (op_at a i) \<noteq> VIRTUAL_REG)"
proof
  assume "no_virtual a"
  then show "\<forall>i<3. op_type (op_at a i) \<noteq> VIRTUAL_REG"
    by (auto simp: no_virtual_def op_at_def)
next
  assume a: "\<forall>i<3. op_type (op_at a i) \<noteq> VIRTUAL_REG"
  from a have "op_type (op_at a 0) \<noteq> VIRTUAL_REG" by simp
  moreover from a have "op_type (op_at a 1) \<noteq> VIRTUAL_REG" by simp
  moreover from a have "op_type (op_at a 2) \<noteq> VIRTUAL_REG" by simp
  ultimately show "no_virtual a" by (simp add: no_virtual_def op_at_def)
qed

lemma read_registers_mem:
  "i < 3 \<Longrightarrow> reads_slot H (form a) i \<Longrightarrow> op_at a i \<in> set (ILOCInsn_get_read_registers H a)"
  by (auto simp: ILOCInsn_get_read_registers_def dest: op_at_cases)

lemma narrows_form: "narrows a b \<Longrightarrow> form b = form a"
  by (simp add: narrows_def)

lemma loop_body_no_virtual:
  assumes body: "loop_body H k st = Inr st'" and ne: "todo st \<noteq> []"
    and wf: "well_formed H (hd (todo st))"
  shows "no_virtual (hd (todo st'))"
proof -
  from body obtain s1 s2 where r: "read_phase H k (latch st) = Inr s1"
    and w: "write_phase H k s1 = Inr s2" and c: "call_phase H k s2 = Inr st'"
    by (auto simp: loop_body_def split: sum.splits)
  let ?c0 = "hd (todo st)" and ?c1 = "hd (todo s1)" and ?c2 = "hd (todo s2)"
  let ?c3 = "hd (todo st')"
  have rl: "read_loop H k (ILOCInsn_get_read_registers H ?c0) (latch st) = Inr s1"
    using r by (simp add: read_phase_def)
  have ne0: "todo (latch st) \<noteq> []" using ne by simp
  have e1: "evolves (latch st) s1" using rl ne0 by (rule read_loop_evolves)
  have n1: "todo s1 \<noteq> []" using e1 ne0 by (rule evolves_todo_nonempty)
  have e2: "evolves s1 s2" using w n1 by (rule write_phase_evolves)
  have n2: "todo s2 \<noteq> []" using e2 n1 by (rule evolves_todo_nonempty)
  have e3: "evolves s2 st'" using c by (rule call_phase_evolves)
  have n01: "narrows ?c0 ?c1" using evolves_hd [OF e1 ne0] by simp
  have n12: "narrows ?c1 ?c2" using e2 n1 by (rule evolves_hd)
  have n23: "narrows ?c2 ?c3" using e3 n2 by (rule evolves_hd)
  have n13: "narrows ?c1 ?c3" using n12 n23 by (rule narrows_trans)
  have n03: "narrows ?c0 ?c3" using n01 n13 by (rule narrows_trans)
  have "op_type (op_at ?c3 i) \<noteq> VIRTUAL_REG" if i: "i < 3" for i
  proof
    assume v3: "op_type (op_at ?c3 i) = VIRTUAL_REG"
    let ?v = "op_id (op_at ?c3 i)"
    from narrows_op_at [OF n03, of i] v3
    have v0: "op_type (op_at ?c0 i) = VIRTUAL_REG" "op_id (op_at ?c0 i) = ?v"
      by (auto simp: op_narrows_def)
    from narrows_op_at [OF n13, of i] v3
    have v1: "op_type (op_at ?c1 i) = VIRTUAL_REG" "op_id (op_at ?c1 i) = ?v"
      by (auto simp: op_narrows_def)
    from well_formed_op_at [OF wf i v0(1)]
    show False
    proof
      assume "reads_slot H (form ?c0) i"
      then have "op_at ?c0 i \<in> set (ILOCInsn_get_read_registers H ?c0)"
        using i by (auto intro: read_registers_mem)
      from read_loop_lacks [OF rl ne0 this v0(1)]
      have "lacks ?v ?c1" by (simp add: v0(2))
      then have "lacks ?v ?c3" using n13 by (rule lacks_narrows)
      from lacks_op_at [OF this i v3] show False by simp
    next
      assume "writes_slot H (form ?c0) = Some i"
      then have wr: "ILOCInsn_get_write_register H ?c1 = op_at ?c1 i"
        by (simp add: ILOCInsn_get_write_register_def narrows_form [OF n01])
      from write_phase_lacks [OF w n1] v1 wr
      have "lacks ?v ?c2" by simp
      then have "lacks ?v ?c3" using n23 by (rule lacks_narrows)
      from lacks_op_at [OF this i v3] show False by simp
    qed
  qed
  then show ?thesis by (simp add: no_virtual_op_at)
qed

subsection \<open>The lists across iterations\<close>

lemma evolves_pass_inv:
  assumes "evolves st st'" and "pass_inv H st"
  shows "pass_inv H st'"
proof -
  from assms have "list_all no_virtual (processed st')"
    by (auto simp: evolves_def pass_inv_def
        intro: list_all_narrows [where P = no_virtual, OF no_virtual_narrows])
  moreover from assms have "list_all no_virtual (inserted st')"
    by (auto simp: evolves_def pass_inv_def list_all_iff dest: spill_code_no_virtual)
  moreover from assms have "list_all (well_formed H) (todo st')"
    by (auto simp: evolves_def pass_inv_def
        intro: list_all_narrows [where P = "well_formed H", OF well_formed_narrows])
  ultimately show ?thesis by (simp add: pass_inv_def)
qed

lemma advance_pass_inv:
  assumes "pass_inv H st" and "todo st \<noteq> []" and "no_virtual (hd (todo st))"
  shows "pass_inv H (advance st)"
  using assms by (cases "todo st") (auto simp: pass_inv_def advance_def)

lemma iterations_pass_inv:
  "iterations H k n st = Inr st' \<Longrightarrow> pass_inv H st \<Longrightarrow> pass_inv H st'"
proof (induction n arbitrary: st)
  case 0
  then show ?case by simp
next
  case (Suc n)
  show ?case
  proof (cases "todo st")
    case Nil
    with Suc.prems show ?thesis by simp
  next
    case (Cons insn rest)
    with Suc.prems obtain s1 where b: "loop_body H k st = Inr s1"
      and it: "iterations H k n (advance s1) = Inr st'"
      by (auto split: sum.splits)
    have ne: "todo st \<noteq> []" using Cons by simp
    have e: "evolves st s1" using b ne by (rule loop_body_evolves)
    have i1: "pass_inv H s1" using e Suc.prems(2) by (rule evolves_pass_inv)
    have wf: "well_formed H (hd (todo st))"
      using Suc.prems(2) Cons by (simp add: pass_inv_def)
    have nv: "no_virtual (hd (todo s1))" using b ne wf by (rule loop_body_no_virtual)
    have "todo s1 \<noteq> []" using e ne by (rule evolves_todo_nonempty)
    with i1 nv have "pass_inv H (advance s1)" by (auto intro: advance_pass_inv)
    with Suc.IH it show ?thesis by blast
  qed
qed

lemma iterations_exhausts:
  "iterations H k n st = Inr st' \<Longrightarrow> length (todo st) \<le> n \<Longrightarrow> todo st' = []"
proof (induction n arbitrary: st)
  case 0
  then show ?case by simp
next
  case (Suc n)
  show ?case
  proof (cases "todo st")
    case Nil
    with Suc.prems show ?thesis by simp
  next
    case (Cons insn rest)
    with Suc.prems obtain s1 where b: "loop_body H k st = Inr s1"
      and it: "iterations H k n (advance s1) = Inr st'"
      by (auto split: sum.splits)
    have ne: "todo st \<noteq> []" using Cons by simp
    have "length (todo s1) = length (todo st)"
      using loop_body_evolves [OF b ne] by (rule evolves_length_todo)
    then have "length (todo (advance s1)) \<le> n"
      using Suc.prems(2) by (simp add: advance_def)
    with Suc.IH it show ?thesis by blast
  qed
qed

lemma for_each_exhausts: "for_each H k st = Inr st' \<Longrightarrow> todo st' = []"
  unfolding for_each_def by (erule iterations_exhausts) simp


section \<open>Lemmas: the next-use distance and the choice of a register\<close>

lemma dist_loop_nonneg: "0 \<le> d \<Longrightarrow> 0 \<le> dist_loop H vr xs d"
  by (induction xs arbitrary: d) auto

lemma dist_nonneg: "0 \<le> dist H vr xs"
  by (simp add: dist_def dist_loop_nonneg)

lemma dist_loop_no_reader:
  "\<not> list_ex (reads_vr H vr) xs \<Longrightarrow> dist_loop H vr xs d = int (MAX_VIRTUAL_REGS H)"
  by (induction xs arbitrary: d) auto

lemma dist_loop_first_reader:
  "\<not> list_ex (reads_vr H vr) pre \<Longrightarrow> reads_vr H vr r \<Longrightarrow>
   dist_loop H vr (pre @ r # post) d = d + int (length pre)"
  by (induction pre arbitrary: d) auto

lemma dist_no_reader:
  "\<not> list_ex (reads_vr H vr) xs \<Longrightarrow> dist H vr xs = int (MAX_VIRTUAL_REGS H)"
  by (simp add: dist_def dist_loop_no_reader)

lemma dist_first_reader:
  "\<not> list_ex (reads_vr H vr) pre \<Longrightarrow> reads_vr H vr r \<Longrightarrow>
   dist H vr (pre @ r # post) = 1 + int (length pre)"
  by (simp add: dist_def dist_loop_first_reader)

lemma nop_not_read: "\<not> reads_vr H vr nop"
  by (simp add: reads_vr_def nop_def ILOCInsn_get_read_registers_def ILOCInsn_new_3op_def
      op_at_def empty_operand_def)

lemma replicate_nop_not_read: "\<not> list_ex (reads_vr H vr) (replicate n nop)"
  by (induction n) (simp_all add: nop_not_read)

lemma add3_reads: "reads_slot H (OTHER_FORM 1) 0 \<Longrightarrow> reads_vr H v (add3 v b c)"
  by (simp add: reads_vr_def add3_def ILOCInsn_get_read_registers_def ILOCInsn_new_3op_def
      op_at_def virtual_register_def)

lemma max_loop_Suc:
  "max_loop H (Suc k) st = max_step H st (max_loop H k st) k"
  by (simp add: max_loop_def)

lemma max_loop_0: "max_loop H 0 st = (-1, -1)"
  by (simp add: max_loop_def)

lemma max_loop_spec:
  "0 < k \<Longrightarrow>
   (\<exists>p. fst (max_loop H k st) = int p \<and> p < k \<and>
        snd (max_loop H k st) = resident_dist H st p \<and>
        (\<forall>j<k. resident_dist H st j \<le> resident_dist H st p) \<and>
        (\<forall>j<p. resident_dist H st j < resident_dist H st p))"
proof (induction k)
  case 0
  then show ?case by simp
next
  case (Suc k)
  show ?case
  proof (cases "k = 0")
    case True
    have "0 \<le> resident_dist H st 0" by (simp add: resident_dist_def dist_nonneg)
    then show ?thesis using True
      by (simp add: max_loop_Suc max_loop_0 max_step_def resident_dist_def Let_def)
  next
    case False
    with Suc.IH obtain p where p: "fst (max_loop H k st) = int p" "p < k"
      "snd (max_loop H k st) = resident_dist H st p"
      "\<forall>j<k. resident_dist H st j \<le> resident_dist H st p"
      "\<forall>j<p. resident_dist H st j < resident_dist H st p"
      by auto
    show ?thesis
    proof (cases "resident_dist H st k > resident_dist H st p")
      case True
      then have m: "max_loop H (Suc k) st = (int k, resident_dist H st k)"
        using p(3) by (simp add: max_loop_Suc max_step_def resident_dist_def Let_def)
      have "\<forall>j<Suc k. resident_dist H st j \<le> resident_dist H st k"
        using p(4) True by (auto simp: less_Suc_eq intro: order_trans)
      moreover have "\<forall>j<k. resident_dist H st j < resident_dist H st k"
        using p(4) True by (auto intro: le_less_trans)
      ultimately show ?thesis using m by auto
    next
      case False
      then have m: "max_loop H (Suc k) st = max_loop H k st"
        using p(3) by (simp add: max_loop_Suc max_step_def resident_dist_def Let_def)
      have "\<forall>j<Suc k. resident_dist H st j \<le> resident_dist H st p"
        using p(4) False by (auto simp: less_Suc_eq)
      then show ?thesis using m p by auto
    qed
  qed
qed

lemma find_upt_Some:
  "find P [0..<k] = Some i \<longleftrightarrow> i < k \<and> P i \<and> (\<forall>j<i. \<not> P j)"
  by (auto simp: find_Some_iff)

lemma find_upt_None: "find P [0..<k] = None \<longleftrightarrow> (\<forall>i<k. \<not> P i)"
  by (auto simp: find_None_iff)

lemma spill_negative: "pr < 0 \<Longrightarrow> spill H pr st = Inr st' \<Longrightarrow> False"
  by (auto simp: spill_def split: sum.splits prod.splits if_splits)

lemma allocate_free:
  assumes "allocate H k vr st = Inr (pr, st')" and "i < k" and "phys_reg_map st ! i = -1"
  shows "\<exists>i<k. pr = int i \<and> phys_reg_map st ! i = -1 \<and> (\<forall>j<i. phys_reg_map st ! j \<noteq> -1) \<and>
           st' = st\<lparr>phys_reg_map := (phys_reg_map st)[i := vr]\<rparr>"
proof -
  from assms(2,3) obtain f where f: "find (\<lambda>i. phys_reg_map st ! i = -1) [0..<k] = Some f"
    by (cases "find (\<lambda>i. phys_reg_map st ! i = -1) [0..<k]") (auto simp: find_upt_None)
  then have "f < k" "phys_reg_map st ! f = -1" "\<forall>j<f. phys_reg_map st ! j \<noteq> -1"
    by (simp_all add: find_upt_Some)
  moreover from assms(1) f have "pr = int f" "st' = st\<lparr>phys_reg_map := (phys_reg_map st)[f := vr]\<rparr>"
    by (simp_all add: allocate_def)
  ultimately show ?thesis by blast
qed

lemma allocate_free_succeeds:
  assumes "\<exists>i<k. phys_reg_map st ! i = -1"
  shows "succeeds (allocate H k vr st)"
proof -
  from assms obtain f where "find (\<lambda>i. phys_reg_map st ! i = -1) [0..<k] = Some f"
    by (cases "find (\<lambda>i. phys_reg_map st ! i = -1) [0..<k]") (auto simp: find_upt_None)
  then show ?thesis by (simp add: allocate_def succeeds_def)
qed

lemma allocate_full:
  assumes run: "allocate H k vr st = Inr (pr, st')" and full: "\<forall>i<k. phys_reg_map st ! i \<noteq> -1"
  shows "\<exists>p<k. pr = int p \<and> (\<forall>j<k. resident_dist H st j \<le> resident_dist H st p) \<and>
           (\<forall>j<p. resident_dist H st j < resident_dist H st p) \<and>
           (\<exists>s1. spill H (int p) st = Inr s1 \<and>
                 st' = s1\<lparr>phys_reg_map := (phys_reg_map s1)[p := vr]\<rparr>)"
proof -
  from full have f: "find (\<lambda>i. phys_reg_map st ! i = -1) [0..<k] = None"
    by (simp add: find_upt_None)
  with run obtain s1 where sp: "spill H (fst (max_loop H k st)) st = Inr s1"
    and pr: "pr = fst (max_loop H k st)"
    and st': "st' = s1\<lparr>phys_reg_map := (phys_reg_map s1)[nat (fst (max_loop H k st)) := vr]\<rparr>"
    by (auto simp: allocate_def Let_def split: sum.splits)
  have "0 < k"
  proof (rule ccontr)
    assume "\<not> 0 < k"
    then have "fst (max_loop H k st) < 0" by (simp add: max_loop_0)
    with sp show False by (auto dest: spill_negative)
  qed
  from max_loop_spec [OF this, of H st] obtain p where p: "fst (max_loop H k st) = int p" "p < k"
    "\<forall>j<k. resident_dist H st j \<le> resident_dist H st p"
    "\<forall>j<p. resident_dist H st j < resident_dist H st p"
    by auto
  with sp pr st' show ?thesis by auto
qed

section \<open>Lemmas: what the spill operations return\<close>

lemma update_at_fields [simp]:
  "phys_reg_map (update_at r f st) = phys_reg_map st"
  "offset_arr (update_at r f st) = offset_arr st"
  "inserted (update_at r f st) = inserted st"
  "local_allocator_insn (update_at r f st) = local_allocator_insn st"
  "length (processed (update_at r f st)) = length (processed st)"
  "length (todo (update_at r f st)) = length (todo st)"
  by (cases r; simp add: update_at_def)+

lemma update_at_processed_empty [simp]:
  "processed (update_at r f st) = [] \<longleftrightarrow> processed st = []"
  by (cases r) (simp_all add: update_at_def)

lemma insert_spill_result:
  assumes "insert_spill H pr st = Inr (off, st')"
  shows "off = next_offset H st"
    and "phys_reg_map st' = phys_reg_map st"
    and "offset_arr st' = offset_arr st"
    and "local_allocator_insn st' = local_allocator_insn st"
    and "inserted st' = store_ai pr (next_offset H st) # inserted st"
    and "processed st \<noteq> []"
    and "local_allocator_insn st \<noteq> None"
    and "length (processed st') = length (processed st)"
    and "length (todo st') = length (todo st)"
  using assms
  by (auto simp: insert_spill_def Let_def next_offset_def frame_imm_def store_ai_def
      split: option.splits if_splits)

lemma insert_spill_todo:
  assumes "insert_spill H pr st = Inr (off, st')"
    and "local_allocator_insn st \<noteq> Some (In_todo l)"
  shows "todo st' ! l = todo st ! l"
  using assms
  by (auto simp: insert_spill_def Let_def update_at_def
      split: option.splits insn_ref.splits if_splits)

lemma insert_spill_succeeds:
  assumes "local_allocator_insn st \<noteq> None" and "processed st \<noteq> []"
  shows "\<exists>st'. insert_spill H pr st = Inr (next_offset H st, st')"
  using assms
  by (auto simp: insert_spill_def Let_def next_offset_def frame_imm_def)

lemma insert_load_result:
  assumes "insert_load off pr st = Inr st'"
  shows "st' = st\<lparr>inserted := load_ai off pr # inserted st\<rparr>" and "processed st \<noteq> []"
  using assms by (auto simp: insert_load_def Let_def load_ai_def split: if_splits)

lemma spill_result:
  assumes "spill H pr st = Inr st'"
  shows "0 \<le> pr" and "nat pr < length (phys_reg_map st)"
    and "0 \<le> phys_reg_map st ! nat pr" and "phys_reg_map st ! nat pr < int (MAX_VIRTUAL_REGS H)"
    and "phys_reg_map st' = (phys_reg_map st)[nat pr := -1]"
    and "offset_arr st' = (offset_arr st)(phys_reg_map st ! nat pr := next_offset H st)"
    and "local_allocator_insn st' = local_allocator_insn st"
    and "inserted st' = store_ai pr (next_offset H st) # inserted st"
    and "processed st \<noteq> []"
    and "local_allocator_insn st \<noteq> None"
    and "length (processed st') = length (processed st)"
    and "length (todo st') = length (todo st)"
proof -
  from assms obtain off s1 where i: "insert_spill H pr st = Inr (off, s1)"
    by (auto simp: spill_def split: sum.splits)
  note r = insert_spill_result [OF i]
  from assms i r(2) have b: "0 \<le> pr" "nat pr < length (phys_reg_map st)"
    "0 \<le> phys_reg_map st ! nat pr" "phys_reg_map st ! nat pr < int (MAX_VIRTUAL_REGS H)"
    by (auto simp: spill_def Let_def split: if_splits)
  from assms i r(2) b have
    s: "st' = s1\<lparr>offset_arr := (offset_arr s1)(phys_reg_map s1 ! nat pr := off),
                 phys_reg_map := (phys_reg_map s1)[nat pr := -1]\<rparr>"
    by (auto simp: spill_def Let_def split: if_splits)
  show "0 \<le> pr" "nat pr < length (phys_reg_map st)"
    "0 \<le> phys_reg_map st ! nat pr" "phys_reg_map st ! nat pr < int (MAX_VIRTUAL_REGS H)"
    by (rule b)+
  show "phys_reg_map st' = (phys_reg_map st)[nat pr := -1]" by (simp add: s r)
  show "offset_arr st' = (offset_arr st)(phys_reg_map st ! nat pr := next_offset H st)"
    by (simp add: s r)
  show "local_allocator_insn st' = local_allocator_insn st" by (simp add: s r)
  show "inserted st' = store_ai pr (next_offset H st) # inserted st" by (simp add: s r)
  show "processed st \<noteq> []" by (rule r)
  show "local_allocator_insn st \<noteq> None" by (rule r)
  show "length (processed st') = length (processed st)" by (simp add: s r)
  show "length (todo st') = length (todo st)" by (simp add: s r)
qed

lemma spill_succeeds:
  assumes "local_allocator_insn st \<noteq> None" and "processed st \<noteq> []"
    and "0 \<le> pr" and "nat pr < length (phys_reg_map st)"
    and "0 \<le> phys_reg_map st ! nat pr" and "phys_reg_map st ! nat pr < int (MAX_VIRTUAL_REGS H)"
  shows "\<exists>st'. spill H pr st = Inr st'"
proof -
  from insert_spill_succeeds [OF assms(1,2)] obtain s1
    where i: "insert_spill H pr st = Inr (next_offset H st, s1)" by blast
  from insert_spill_result(2) [OF i] assms(3-6) i show ?thesis
    by (auto simp: spill_def Let_def)
qed

section \<open>Lemmas: the register file\<close>

lemma ok_Cons:
  "register_file_ok (x # xs) = ((x = -1 \<or> x \<notin> set xs) \<and> register_file_ok xs)"
  by (auto simp: register_file_ok_def)

lemma ok_Nil [simp]: "register_file_ok []"
  by (simp add: register_file_ok_def)

lemma ok_update_free: "register_file_ok m \<Longrightarrow> register_file_ok (m[i := -1])"
proof (induction m arbitrary: i)
  case Nil
  then show ?case by simp
next
  case (Cons x xs)
  show ?case
  proof (cases i)
    case 0
    with Cons.prems show ?thesis by (simp add: ok_Cons)
  next
    case (Suc j)
    have "set (xs[j := -1]) \<subseteq> insert (-1) (set xs)" by (rule set_update_subset_insert)
    with Cons Suc show ?thesis by (auto simp: ok_Cons)
  qed
qed

lemma ok_update_new:
  "register_file_ok m \<Longrightarrow> vr \<notin> set m \<Longrightarrow> register_file_ok (m[i := vr])"
proof (induction m arbitrary: i)
  case Nil
  then show ?case by simp
next
  case (Cons x xs)
  show ?case
  proof (cases i)
    case 0
    with Cons.prems show ?thesis by (simp add: ok_Cons)
  next
    case (Suc j)
    have "set (xs[j := vr]) \<subseteq> insert vr (set xs)" by (rule set_update_subset_insert)
    with Cons Suc show ?thesis by (auto simp: ok_Cons)
  qed
qed

lemma allocate_map:
  assumes "allocate H k vr st = Inr (pr, st')"
  shows "\<exists>i. pr = int i \<and> i < k \<and> phys_reg_map st' = (phys_reg_map st)[i := vr]"
proof (cases "\<exists>i<k. phys_reg_map st ! i = -1")
  case True
  then obtain i where "i < k" "phys_reg_map st ! i = -1" by blast
  from allocate_free [OF assms this] show ?thesis by auto
next
  case False
  then have "\<forall>i<k. phys_reg_map st ! i \<noteq> -1" by simp
  from allocate_full [OF assms this] obtain p s1 where p: "p < k" "pr = int p"
    "spill H (int p) st = Inr s1" "st' = s1\<lparr>phys_reg_map := (phys_reg_map s1)[p := vr]\<rparr>"
    by blast
  from spill_result(5) [OF p(3)] p show ?thesis by auto
qed

lemma allocate_length:
  "allocate H k vr st = Inr (pr, st') \<Longrightarrow> length (phys_reg_map st') = length (phys_reg_map st)"
  by (auto dest: allocate_map)

lemma allocate_ok:
  assumes "allocate H k vr st = Inr (pr, st')" and "register_file_ok (phys_reg_map st)"
    and "vr \<notin> set (phys_reg_map st)"
  shows "register_file_ok (phys_reg_map st')"
  using allocate_map [OF assms(1)] assms(2,3) by (auto intro: ok_update_new)

lemma ensure_map:
  assumes "ensure H k vr st = Inr (pr, st')"
  shows "(\<exists>i<k. pr = int i \<and> phys_reg_map st ! i = vr \<and> (\<forall>j<i. phys_reg_map st ! j \<noteq> vr) \<and> st' = st) \<or>
         ((\<forall>i<k. phys_reg_map st ! i \<noteq> vr) \<and>
          (\<exists>i<k. pr = int i \<and> phys_reg_map st' = (phys_reg_map st)[i := vr]))"
proof (cases "find (\<lambda>i. phys_reg_map st ! i = vr) [0..<k]")
  case (Some i)
  with assms have "pr = int i" "st' = st" by (simp_all add: ensure_def)
  with Some show ?thesis by (auto simp: find_upt_Some)
next
  case None
  with assms obtain s1 where a: "allocate H k vr st = Inr (pr, s1)"
    and m: "phys_reg_map st' = phys_reg_map s1"
    by (auto simp: ensure_def split: sum.splits if_splits dest!: insert_load_result(1))
  from None have "\<forall>i<k. phys_reg_map st ! i \<noteq> vr" by (simp add: find_upt_None)
  with allocate_map [OF a] m show ?thesis by auto
qed

lemma ensure_length:
  "ensure H k vr st = Inr (pr, st') \<Longrightarrow> length (phys_reg_map st') = length (phys_reg_map st)"
  by (auto dest: ensure_map)

lemma not_resident:
  "\<forall>i<k. m ! i \<noteq> vr \<Longrightarrow> length m = k \<Longrightarrow> vr \<notin> set m"
  by (auto simp: in_set_conv_nth)

lemma ensure_ok:
  assumes "ensure H k vr st = Inr (pr, st')" and "register_file_ok (phys_reg_map st)"
    and "length (phys_reg_map st) = k"
  shows "register_file_ok (phys_reg_map st')"
  using ensure_map [OF assms(1)]
proof
  assume "\<exists>i<k. pr = int i \<and> phys_reg_map st ! i = vr \<and>
    (\<forall>j<i. phys_reg_map st ! j \<noteq> vr) \<and> st' = st"
  with assms(2) show ?thesis by auto
next
  assume a: "(\<forall>i<k. phys_reg_map st ! i \<noteq> vr) \<and>
    (\<exists>i<k. pr = int i \<and> phys_reg_map st' = (phys_reg_map st)[i := vr])"
  then have "\<forall>i<k. phys_reg_map st ! i \<noteq> vr" by simp
  then have "vr \<notin> set (phys_reg_map st)" using assms(3) by (rule not_resident)
  with a assms(2) show ?thesis by (auto intro: ok_update_new)
qed

lemma read_operand_map:
  assumes "read_operand H k rop st = Inr st'"
  shows "length (phys_reg_map st') = length (phys_reg_map st)"
    and "register_file_ok (phys_reg_map st) \<Longrightarrow> length (phys_reg_map st) = k \<Longrightarrow>
         register_file_ok (phys_reg_map st')"
proof -
  show "length (phys_reg_map st') = length (phys_reg_map st)"
  proof (cases "op_type rop = VIRTUAL_REG")
    case False
    with assms show ?thesis by (simp add: read_operand_def)
  next
    case True
    with assms obtain pr s1 where e: "ensure H k (op_id rop) st = Inr (pr, s1)"
      and m: "phys_reg_map st' = phys_reg_map s1 \<or> phys_reg_map st' = (phys_reg_map s1)[nat pr := -1]"
      by (auto simp: read_operand_def Let_def set_cur_def split: sum.splits if_splits)
    from ensure_length [OF e] m show ?thesis by auto
  qed
  assume ok: "register_file_ok (phys_reg_map st)" and len: "length (phys_reg_map st) = k"
  show "register_file_ok (phys_reg_map st')"
  proof (cases "op_type rop = VIRTUAL_REG")
    case False
    with assms ok show ?thesis by (simp add: read_operand_def)
  next
    case True
    with assms obtain pr s1 where e: "ensure H k (op_id rop) st = Inr (pr, s1)"
      and m: "phys_reg_map st' = phys_reg_map s1 \<or> phys_reg_map st' = (phys_reg_map s1)[nat pr := -1]"
      by (auto simp: read_operand_def Let_def set_cur_def split: sum.splits if_splits)
    from ensure_ok [OF e ok len] m show ?thesis by (auto intro: ok_update_free)
  qed
qed

lemma read_loop_map:
  "read_loop H k rops st = Inr st' \<Longrightarrow>
   length (phys_reg_map st') = length (phys_reg_map st) \<and>
   (register_file_ok (phys_reg_map st) \<longrightarrow> length (phys_reg_map st) = k \<longrightarrow>
    register_file_ok (phys_reg_map st'))"
proof (induction rops arbitrary: st)
  case Nil
  then show ?case by simp
next
  case (Cons r rops)
  from Cons.prems obtain s1 where 1: "read_operand H k r st = Inr s1"
    and 2: "read_loop H k rops s1 = Inr st'"
    by (auto split: sum.splits)
  from read_operand_map [OF 1] Cons.IH [OF 2] show ?case by auto
qed

lemma latch_fields [simp]:
  "phys_reg_map (latch st) = phys_reg_map st"
  "offset_arr (latch st) = offset_arr st"
  "processed (latch st) = processed st"
  "inserted (latch st) = inserted st"
  by (auto simp: latch_def split: list.splits)

lemma read_phase_map:
  assumes "read_phase H k st = Inr st'"
  shows "length (phys_reg_map st') = length (phys_reg_map st)"
    and "register_file_ok (phys_reg_map st) \<Longrightarrow> length (phys_reg_map st) = k \<Longrightarrow>
         register_file_ok (phys_reg_map st')"
  using read_loop_map [OF assms [unfolded read_phase_def]] by auto

lemma write_phase_map:
  assumes "write_phase H k st = Inr st'"
  shows "length (phys_reg_map st') = length (phys_reg_map st)"
    and "register_file_ok (phys_reg_map st) \<Longrightarrow>
         op_type (ILOCInsn_get_write_register H (hd (todo st))) = VIRTUAL_REG \<longrightarrow>
           op_id (ILOCInsn_get_write_register H (hd (todo st))) \<notin> set (phys_reg_map st) \<Longrightarrow>
         register_file_ok (phys_reg_map st')"
proof -
  show "length (phys_reg_map st') = length (phys_reg_map st)"
  proof (cases "op_type (ILOCInsn_get_write_register H (hd (todo st))) = VIRTUAL_REG")
    case False
    with assms show ?thesis by (simp add: write_phase_def Let_def)
  next
    case True
    with assms obtain pr s1 where
      a: "allocate H k (op_id (ILOCInsn_get_write_register H (hd (todo st)))) st = Inr (pr, s1)"
      and m: "phys_reg_map st' = phys_reg_map s1"
      by (auto simp: write_phase_def Let_def set_cur_def split: sum.splits)
    from allocate_length [OF a] m show ?thesis by simp
  qed
  assume ok: "register_file_ok (phys_reg_map st)"
    and w: "op_type (ILOCInsn_get_write_register H (hd (todo st))) = VIRTUAL_REG \<longrightarrow>
           op_id (ILOCInsn_get_write_register H (hd (todo st))) \<notin> set (phys_reg_map st)"
  show "register_file_ok (phys_reg_map st')"
  proof (cases "op_type (ILOCInsn_get_write_register H (hd (todo st))) = VIRTUAL_REG")
    case False
    with assms ok show ?thesis by (simp add: write_phase_def Let_def)
  next
    case True
    with assms obtain pr s1 where
      a: "allocate H k (op_id (ILOCInsn_get_write_register H (hd (todo st)))) st = Inr (pr, s1)"
      and m: "phys_reg_map st' = phys_reg_map s1"
      by (auto simp: write_phase_def Let_def set_cur_def split: sum.splits)
    from allocate_ok [OF a ok] w True m show ?thesis by simp
  qed
qed

lemma spill_loop_map:
  "spill_loop H is st = Inr st' \<Longrightarrow>
   phys_reg_map st' = fold (\<lambda>i m. m[i := -1]) is (phys_reg_map st)"
proof (induction "is" arbitrary: st)
  case Nil
  then show ?case by simp
next
  case (Cons i "is")
  show ?case
  proof (cases "phys_reg_map st ! i \<noteq> -1")
    case False
    then have "(phys_reg_map st)[i := -1] = phys_reg_map st"
      by (metis list_update_id)
    with Cons False show ?thesis by simp
  next
    case True
    with Cons.prems obtain s1 where 1: "spill H (int i) st = Inr s1"
      and 2: "spill_loop H is s1 = Inr st'"
      by (auto split: sum.splits)
    from spill_result(5) [OF 1] Cons.IH [OF 2] show ?thesis by simp
  qed
qed

lemma fold_clear_length [simp]: "length (fold (\<lambda>i m. m[i := -1]) is m) = length m"
  by (induction "is" arbitrary: m) auto

lemma fold_clear_nth:
  "j < length m \<Longrightarrow>
   fold (\<lambda>i m. m[i := (-1::int)]) is m ! j = (if j \<in> set is then -1 else m ! j)"
  by (induction "is" arbitrary: m) (auto simp: nth_list_update)

lemma fold_clear_all: "all_free (fold (\<lambda>i m. m[i := -1]) [0..<length m] m)"
  by (simp add: all_free_def list_all_length fold_clear_nth)

lemma fold_clear_ok:
  "register_file_ok m \<Longrightarrow> register_file_ok (fold (\<lambda>i m. m[i := -1]) is m)"
  by (induction "is" arbitrary: m) (auto intro: ok_update_free)

lemma spill_loop_stores:
  "spill_loop H is st = Inr st' \<Longrightarrow> distinct is \<Longrightarrow>
   \<exists>new. inserted st' = new @ inserted st \<and> list_all (\<lambda>s. form s = STORE_AI) new \<and>
     spilled_registers new = rev (map int (filter (\<lambda>i. phys_reg_map st ! i \<noteq> -1) is))"
proof (induction "is" arbitrary: st)
  case Nil
  then show ?case by (simp add: spilled_registers_def)
next
  case (Cons i "is")
  show ?case
  proof (cases "phys_reg_map st ! i \<noteq> -1")
    case False
    with Cons show ?thesis by simp
  next
    case True
    with Cons.prems obtain s1 where 1: "spill H (int i) st = Inr s1"
      and 2: "spill_loop H is s1 = Inr st'"
      by (auto split: sum.splits)
    from Cons.prems(2) have d: "distinct is" and ni: "i \<notin> set is" by simp_all
    from Cons.IH [OF 2 d] obtain new where new: "inserted st' = new @ inserted s1"
      "list_all (\<lambda>s. form s = STORE_AI) new"
      "spilled_registers new = rev (map int (filter (\<lambda>j. phys_reg_map s1 ! j \<noteq> -1) is))"
      by blast
    have "filter (\<lambda>j. phys_reg_map s1 ! j \<noteq> -1) is = filter (\<lambda>j. phys_reg_map st ! j \<noteq> -1) is"
    proof (intro filter_cong refl)
      fix j assume "j \<in> set is"
      with ni have "i \<noteq> j" by auto
      then show "(phys_reg_map s1 ! j \<noteq> -1) = (phys_reg_map st ! j \<noteq> -1)"
        by (simp add: spill_result(5) [OF 1])
    qed
    with new spill_result(8) [OF 1] True
    have "inserted st' = (new @ [store_ai (int i) (next_offset H st)]) @ inserted st \<and>
      list_all (\<lambda>s. form s = STORE_AI) (new @ [store_ai (int i) (next_offset H st)]) \<and>
      spilled_registers (new @ [store_ai (int i) (next_offset H st)]) =
        rev (map int (filter (\<lambda>j. phys_reg_map st ! j \<noteq> -1) (i # is)))"
      by (simp add: spilled_registers_def store_ai_def ILOCInsn_new_3op_def physical_register_def)
    then show ?thesis by blast
  qed
qed

lemma succeedsE: "succeeds r \<Longrightarrow> (\<And>x. r = Inr x \<Longrightarrow> thesis) \<Longrightarrow> thesis"
  by (cases r) (simp_all add: succeeds_def)

lemma state_of_Inr [simp]: "state_of (Inr st) = st"
  by (simp add: state_of_def)

lemma evolves_length_processed:
  "evolves st st' \<Longrightarrow> length (processed st') = length (processed st)"
  by (auto simp: evolves_def dest: list_all2_lengthD)

lemma evolves_processed_nonempty:
  "evolves st st' \<Longrightarrow> processed st \<noteq> [] \<Longrightarrow> processed st' \<noteq> []"
  by (drule evolves_length_processed) auto

lemma read_loop_no_virtual:
  "list_all (\<lambda>r. op_type r \<noteq> VIRTUAL_REG) rops \<Longrightarrow> read_loop H k rops st = Inr st"
  by (induction rops) (simp_all add: read_operand_def)

lemma read_registers_no_virtual:
  "no_virtual c \<Longrightarrow>
   list_all (\<lambda>r. op_type r \<noteq> VIRTUAL_REG) (ILOCInsn_get_read_registers H c)"
  by (simp add: no_virtual_def ILOCInsn_get_read_registers_def op_at_def empty_operand_def)

lemma write_register_no_virtual:
  "no_virtual c \<Longrightarrow> op_type (ILOCInsn_get_write_register H c) \<noteq> VIRTUAL_REG"
  by (auto simp: no_virtual_def ILOCInsn_get_write_register_def op_at_def empty_operand_def
      split: option.splits)

lemma read_phase_no_virtual:
  "no_virtual (hd (todo st)) \<Longrightarrow> read_phase H k st = Inr st"
  by (simp add: read_phase_def read_loop_no_virtual read_registers_no_virtual)

lemma write_phase_no_virtual:
  "no_virtual (hd (todo st)) \<Longrightarrow> write_phase H k st = Inr st"
  by (simp add: write_phase_def Let_def write_register_no_virtual)

lemma call_phase_clears:
  assumes c: "call_phase H k st = Inr st'" and f: "form (hd (todo st)) = CALL"
    and p: "processed st \<noteq> []" and len: "length (phys_reg_map st) = k"
  shows "all_free (phys_reg_map st')"
    and "\<exists>new. inserted st' = new @ inserted st \<and> list_all (\<lambda>s. form s = STORE_AI) new \<and>
           rev (spilled_registers new) =
             map int (filter (\<lambda>i. phys_reg_map st ! i \<noteq> -1) [0..<k])"
proof -
  from c f p have sl: "spill_loop H [0..<k] st = Inr st'"
    by (simp add: call_phase_def)
  from spill_loop_map [OF sl] len show "all_free (phys_reg_map st')"
    using fold_clear_all [of "phys_reg_map st"] by simp
  from spill_loop_stores [OF sl] obtain new where "inserted st' = new @ inserted st"
    "list_all (\<lambda>s. form s = STORE_AI) new"
    "spilled_registers new = rev (map int (filter (\<lambda>i. phys_reg_map st ! i \<noteq> -1) [0..<k]))"
    by auto
  then show "\<exists>new. inserted st' = new @ inserted st \<and> list_all (\<lambda>s. form s = STORE_AI) new \<and>
           rev (spilled_registers new) =
             map int (filter (\<lambda>i. phys_reg_map st ! i \<noteq> -1) [0..<k])"
    by auto
qed

lemma loop_body_phases:
  assumes "loop_body H k st = Inr st'"
  obtains s1 s2 where "read_phase H k (latch st) = Inr s1" and "write_phase H k s1 = Inr s2"
    and "call_phase H k s2 = Inr st'"
  using assms by (auto simp: loop_body_def split: sum.splits)

lemma read_phase_evolves:
  "read_phase H k st = Inr st' \<Longrightarrow> todo st \<noteq> [] \<Longrightarrow> evolves st st'"
  unfolding read_phase_def by (rule read_loop_evolves)

lemma loop_body_call_clears:
  assumes b: "loop_body H k st = Inr st'" and ne: "todo st \<noteq> []"
    and f: "form (hd (todo st)) = CALL" and len: "length (phys_reg_map st) = k"
    and alt: "processed st \<noteq> [] \<or> (all_free (phys_reg_map st) \<and> no_virtual (hd (todo st)))"
  shows "all_free (phys_reg_map st')"
proof -
  from b obtain s1 s2 where r: "read_phase H k (latch st) = Inr s1"
    and w: "write_phase H k s1 = Inr s2" and c: "call_phase H k s2 = Inr st'"
    by (rule loop_body_phases)
  have ne0: "todo (latch st) \<noteq> []" using ne by simp
  have e1: "evolves (latch st) s1" using r ne0 by (rule read_phase_evolves)
  have n1: "todo s1 \<noteq> []" using e1 ne0 by (rule evolves_todo_nonempty)
  have e2: "evolves s1 s2" using w n1 by (rule write_phase_evolves)
  have e02: "evolves st s2" using latch_evolves evolves_trans [OF e1 e2] by (rule evolves_trans)
  have f2: "form (hd (todo s2)) = CALL"
    using narrows_form [OF evolves_hd [OF e02 ne]] f by simp
  have l2: "length (phys_reg_map s2) = k"
    using read_phase_map(1) [OF r] write_phase_map(1) [OF w] len by simp
  show ?thesis
  proof (cases "processed st \<noteq> []")
    case True
    with e02 have "processed s2 \<noteq> []" by (rule evolves_processed_nonempty)
    with c f2 l2 show ?thesis by (auto intro: call_phase_clears(1))
  next
    case False
    with alt have af: "all_free (phys_reg_map st)" and nv: "no_virtual (hd (todo st))" by auto
    from nv have "no_virtual (hd (todo (latch st)))" by simp
    with r have s1: "s1 = latch st" by (simp add: read_phase_no_virtual)
    with nv w have s2: "s2 = latch st" by (simp add: write_phase_no_virtual)
    from c s2 False have "st' = latch st" by (simp add: call_phase_def split: if_splits)
    with af show ?thesis by simp
  qed
qed

lemma spill_ok:
  "spill H pr st = Inr st' \<Longrightarrow> register_file_ok (phys_reg_map st) \<Longrightarrow>
   register_file_ok (phys_reg_map st')"
  by (simp add: spill_result(5) ok_update_free)

lemma call_phase_map:
  assumes "call_phase H k st = Inr st'"
  shows "length (phys_reg_map st') = length (phys_reg_map st)"
    and "register_file_ok (phys_reg_map st) \<Longrightarrow> register_file_ok (phys_reg_map st')"
proof -
  from assms have "st' = st \<or> spill_loop H [0..<k] st = Inr st'"
    by (auto simp: call_phase_def split: if_splits)
  then have m: "phys_reg_map st' = phys_reg_map st \<or>
      phys_reg_map st' = fold (\<lambda>i m. m[i := -1]) [0..<k] (phys_reg_map st)"
    by (auto dest: spill_loop_map)
  then show "length (phys_reg_map st') = length (phys_reg_map st)" by auto
  assume "register_file_ok (phys_reg_map st)"
  with m show "register_file_ok (phys_reg_map st')" by (auto intro: fold_clear_ok)
qed

section \<open>Lemmas: the frame reservation\<close>

lemma to_int_id: "- 2147483648 \<le> x \<Longrightarrow> x < 2147483648 \<Longrightarrow> to_int x = x"
  by (simp add: to_int_def)

lemma frame_steps_refl [simp]: "frame_steps H st st 0"
  by (simp add: frame_steps_def)

lemma frame_steps_trans:
  assumes "frame_steps H st s1 n1" and "frame_steps H s1 s2 n2"
  shows "frame_steps H st s2 (n1 + n2)"
proof -
  have mono: "frame_imm st - int (WORD_SIZE H) * int (n1 + n2)
      \<le> frame_imm st - int (WORD_SIZE H) * int n1"
    by (simp add: distrib_left)
  have le: "frame_imm st - int (WORD_SIZE H) * int n1 \<le> frame_imm st" by simp
  show ?thesis
    unfolding frame_steps_def
  proof (intro conjI)
    show "\<not> (frame_imm st < 2147483648 \<and>
           - 2147483648 \<le> frame_imm st - int (WORD_SIZE H) * int (n1 + n2)) \<or>
       frame_imm s2 = frame_imm st - int (WORD_SIZE H) * int (n1 + n2)"
    proof (cases "frame_imm st < 2147483648 \<and>
           - 2147483648 \<le> frame_imm st - int (WORD_SIZE H) * int (n1 + n2)")
      case False
      then show ?thesis by blast
    next
      case True
      with mono have 1: "frame_imm s1 = frame_imm st - int (WORD_SIZE H) * int n1"
        using assms(1) by (auto simp: frame_steps_def)
      with True le have "frame_imm s1 < 2147483648" by linarith
      moreover from True 1
      have "- 2147483648 \<le> frame_imm s1 - int (WORD_SIZE H) * int n2"
        by (simp add: distrib_left)
      ultimately have "frame_imm s2 = frame_imm s1 - int (WORD_SIZE H) * int n2"
        using assms(2) by (auto simp: frame_steps_def)
      with 1 show ?thesis by (simp add: distrib_left)
    qed
  qed (use assms in \<open>auto simp: frame_steps_def\<close>)
qed

lemma frame_steps_la_valid: "frame_steps H st st' n \<Longrightarrow> la_valid st \<Longrightarrow> la_valid st'"
  by (auto simp: frame_steps_def la_valid_def ref_valid_def split: option.splits insn_ref.splits)

lemma insn_at_update_at:
  "ref_valid st r \<Longrightarrow> insn_at (update_at r f st) r = f (insn_at st r)"
  by (cases r) (simp_all add: ref_valid_def insn_at_def update_at_def)

lemma frame_imm_inserted [simp]: "frame_imm (st\<lparr>inserted := x\<rparr>) = frame_imm st"
  by (simp add: frame_imm_def insn_at_def split: option.splits insn_ref.splits)

lemma frame_imm_map [simp]:
  "frame_imm (st\<lparr>phys_reg_map := m\<rparr>) = frame_imm st"
  "frame_imm (st\<lparr>offset_arr := f, phys_reg_map := m\<rparr>) = frame_imm st"
  by (simp_all add: frame_imm_def insn_at_def split: option.splits insn_ref.splits)

lemma store_count_simps [simp]:
  "store_count (store_ai pr off # xs) = Suc (store_count xs)"
  "store_count (load_ai off pr # xs) = store_count xs"
  by (simp_all add: store_count_def store_ai_def load_ai_def ILOCInsn_new_3op_def)

lemma insn_at_fields [simp]:
  "insn_at (st\<lparr>inserted := x\<rparr>) r = insn_at st r"
  "insn_at (st\<lparr>phys_reg_map := m\<rparr>) r = insn_at st r"
  "insn_at (st\<lparr>offset_arr := f\<rparr>) r = insn_at st r"
  by (cases r; simp add: insn_at_def)+

lemma ensure_not_found:
  assumes "ensure H k vr st = Inr (pr, st')"
    and "find (\<lambda>i. phys_reg_map st ! i = vr) [0..<k] = None"
  shows "\<exists>s1. allocate H k vr st = Inr (pr, s1) \<and> 0 \<le> vr \<and> vr < int (MAX_VIRTUAL_REGS H) \<and>
           (if offset_arr s1 vr \<noteq> -1 then insert_load (offset_arr s1 vr) pr s1 = Inr st'
            else st' = s1)"
  using assms by (auto simp: ensure_def split: sum.splits if_splits)

lemma read_operand_virtual:
  assumes "read_operand H k rop st = Inr st'" and "op_type rop = VIRTUAL_REG"
  shows "\<exists>pr s1. ensure H k (op_id rop) st = Inr (pr, s1) \<and>
           (if dist H (op_id rop) (tl (todo s1)) = int (MAX_VIRTUAL_REGS H)
            then st' = (set_cur (replace_register (op_id rop) pr) s1)
                         \<lparr>phys_reg_map := (phys_reg_map s1)[nat pr := -1]\<rparr>
            else st' = set_cur (replace_register (op_id rop) pr) s1)"
proof -
  from assms obtain pr s1 where e: "ensure H k (op_id rop) st = Inr (pr, s1)"
    by (auto simp: read_operand_def Let_def split: sum.splits)
  with assms have "if dist H (op_id rop) (tl (todo s1)) = int (MAX_VIRTUAL_REGS H)
            then st' = (set_cur (replace_register (op_id rop) pr) s1)
                         \<lparr>phys_reg_map := (phys_reg_map s1)[nat pr := -1]\<rparr>
            else st' = set_cur (replace_register (op_id rop) pr) s1"
    by (simp add: read_operand_def Let_def set_cur_def split: if_splits)
  with e show ?thesis by blast
qed

lemma insert_spill_frame:
  assumes "insert_spill H pr st = Inr (off, st')" and "la_valid st"
  shows "frame_imm st' = next_offset H st"
proof -
  from assms(1) obtain r where r: "local_allocator_insn st = Some r"
    by (auto simp: insert_spill_def split: option.splits)
  with assms(2) have v: "ref_valid st r" by (simp add: la_valid_def)
  from assms(1) r have "st' = (update_at r (set_imm1 (next_offset H st)) st)
      \<lparr>inserted := ILOCInsn_new_3op STORE_AI (physical_register pr) base_register
          (int_const (next_offset H st)) # inserted st\<rparr>"
    by (auto simp: insert_spill_def Let_def next_offset_def frame_imm_def split: if_splits)
  then show ?thesis
    using r v by (simp add: frame_imm_def insn_at_update_at set_imm1_def)
qed

lemma insert_spill_steps:
  assumes "insert_spill H pr st = Inr (off, st')" and "la_valid st"
  shows "frame_steps H st st' 1"
  using insert_spill_result [OF assms(1)] insert_spill_frame [OF assms]
    insert_spill_todo [OF assms(1)]
  by (auto simp: frame_steps_def next_offset_def to_int_id)

lemma insert_load_steps: "insert_load off pr st = Inr st' \<Longrightarrow> frame_steps H st st' 0"
  by (drule insert_load_result(1)) (simp add: frame_steps_def)

lemma frame_steps_map:
  assumes "frame_steps H st s1 n" and "processed st' = processed s1" and "todo st' = todo s1"
    and "inserted st' = inserted s1" and "local_allocator_insn st' = local_allocator_insn s1"
  shows "frame_steps H st st' n"
proof -
  have "frame_imm st' = frame_imm s1"
    using assms(2-5) by (simp add: frame_imm_def insn_at_def split: option.splits insn_ref.splits)
  with assms show ?thesis by (simp add: frame_steps_def)
qed

lemma spill_steps:
  assumes "spill H pr st = Inr st'" and "la_valid st"
  shows "frame_steps H st st' 1"
proof -
  from assms(1) obtain off s1 where i: "insert_spill H pr st = Inr (off, s1)"
    by (auto simp: spill_def split: sum.splits)
  from assms(1) i have "processed st' = processed s1" "todo st' = todo s1"
    "inserted st' = inserted s1" "local_allocator_insn st' = local_allocator_insn s1"
    by (auto simp: spill_def Let_def split: if_splits)
  with insert_spill_steps [OF i assms(2)] show ?thesis by (rule frame_steps_map)
qed

lemma allocate_steps:
  assumes "allocate H k vr st = Inr (pr, st')" and "la_valid st"
  shows "\<exists>n. frame_steps H st st' n"
proof (cases "\<exists>i<k. phys_reg_map st ! i = -1")
  case True
  then obtain i where "i < k" "phys_reg_map st ! i = -1" by blast
  from allocate_free [OF assms(1) this] obtain j
    where "st' = st\<lparr>phys_reg_map := (phys_reg_map st)[j := vr]\<rparr>" by blast
  then have "frame_steps H st st' 0" by (simp add: frame_steps_def)
  then show ?thesis ..
next
  case False
  then have "\<forall>i<k. phys_reg_map st ! i \<noteq> -1" by simp
  from allocate_full [OF assms(1) this] obtain p s1 where
    s: "spill H (int p) st = Inr s1" "st' = s1\<lparr>phys_reg_map := (phys_reg_map s1)[p := vr]\<rparr>"
    by blast
  from spill_steps [OF s(1) assms(2)] have "frame_steps H st st' 1"
    by (rule frame_steps_map) (simp_all add: s(2))
  then show ?thesis ..
qed

lemma ensure_steps:
  assumes "ensure H k vr st = Inr (pr, st')" and "la_valid st"
  shows "\<exists>n. frame_steps H st st' n"
proof (cases "find (\<lambda>i. phys_reg_map st ! i = vr) [0..<k]")
  case (Some i)
  with assms(1) have "st' = st" by (simp add: ensure_def)
  then have "frame_steps H st st' 0" by simp
  then show ?thesis ..
next
  case None
  from ensure_not_found [OF assms(1) None] obtain s1
    where a: "allocate H k vr st = Inr (pr, s1)"
    and l: "st' = s1 \<or> (\<exists>off. insert_load off pr s1 = Inr st')"
    by (auto split: if_splits)
  from allocate_steps [OF a assms(2)] obtain n where n: "frame_steps H st s1 n" ..
  from l have "frame_steps H s1 st' 0" by (auto dest: insert_load_steps)
  with n have "frame_steps H st st' (n + 0)" by (rule frame_steps_trans)
  then show ?thesis ..
qed

lemma op1_imm_replace [simp]:
  "op_imm (op1 (replace_register vr pr a)) = op_imm (op1 a)"
  by (simp add: replace_register_def replace_operand_def)

lemma frame_imm_set_cur:
  assumes "\<And>a. op_imm (op1 (f a)) = op_imm (op1 a)" and "todo st \<noteq> []"
  shows "frame_imm (set_cur f st) = frame_imm st"
proof (cases "local_allocator_insn st")
  case None
  then show ?thesis by (simp add: frame_imm_def set_cur_def)
next
  case (Some r)
  show ?thesis
  proof (cases r)
    case (In_processed i)
    with Some show ?thesis by (simp add: frame_imm_def set_cur_def insn_at_def)
  next
    case (In_todo i)
    with Some assms show ?thesis
      by (cases "todo st"; cases i) (simp_all add: frame_imm_def set_cur_def insn_at_def)
  qed
qed

lemma set_cur_steps:
  assumes "\<And>a. op_imm (op1 (f a)) = op_imm (op1 a)" and "todo st \<noteq> []"
  shows "frame_steps H st (set_cur f st) 0"
proof -
  have "todo (set_cur f st) ! l = todo st ! l" if "0 < l" for l
    using that assms(2) by (cases "todo st"; cases l) (simp_all add: set_cur_def)
  moreover have "local_allocator_insn (set_cur f st) = local_allocator_insn st"
    "processed (set_cur f st) = processed st" "inserted (set_cur f st) = inserted st"
    "length (todo (set_cur f st)) = length (todo st)"
    using assms(2) by (simp_all add: set_cur_def)
  ultimately show ?thesis
    using frame_imm_set_cur [of f st, OF assms] by (simp add: frame_steps_def)
qed

lemma frame_steps_todo_nonempty:
  "frame_steps H st st' n \<Longrightarrow> todo st \<noteq> [] \<Longrightarrow> todo st' \<noteq> []"
  by (auto simp: frame_steps_def)

lemma read_operand_steps:
  assumes "read_operand H k rop st = Inr st'" and "la_valid st" and "todo st \<noteq> []"
  shows "\<exists>n. frame_steps H st st' n"
proof (cases "op_type rop = VIRTUAL_REG")
  case False
  with assms(1) have "st' = st" by (simp add: read_operand_def)
  then have "frame_steps H st st' 0" by simp
  then show ?thesis ..
next
  case True
  from read_operand_virtual [OF assms(1) True] obtain pr s1
    where e: "ensure H k (op_id rop) st = Inr (pr, s1)"
    and s: "st' = set_cur (replace_register (op_id rop) pr) s1 \<or>
      (\<exists>m. st' = (set_cur (replace_register (op_id rop) pr) s1)\<lparr>phys_reg_map := m\<rparr>)"
    by (auto split: if_splits)
  from ensure_steps [OF e assms(2)] obtain n where n: "frame_steps H st s1 n" ..
  then have ne: "todo s1 \<noteq> []" using assms(3) by (rule frame_steps_todo_nonempty)
  have c: "frame_steps H s1 (set_cur (replace_register (op_id rop) pr) s1) 0"
    by (rule set_cur_steps) (simp_all add: ne)
  from s have "frame_steps H s1 st' 0"
  proof
    assume "st' = set_cur (replace_register (op_id rop) pr) s1"
    with c show ?thesis by simp
  next
    assume "\<exists>m. st' = (set_cur (replace_register (op_id rop) pr) s1)\<lparr>phys_reg_map := m\<rparr>"
    then obtain m where "st' = (set_cur (replace_register (op_id rop) pr) s1)\<lparr>phys_reg_map := m\<rparr>" ..
    with c show ?thesis by (auto intro: frame_steps_map)
  qed
  with n have "frame_steps H st st' (n + 0)" by (rule frame_steps_trans)
  then show ?thesis ..
qed

lemma read_loop_steps:
  "read_loop H k rops st = Inr st' \<Longrightarrow> la_valid st \<Longrightarrow> todo st \<noteq> [] \<Longrightarrow>
   \<exists>n. frame_steps H st st' n"
proof (induction rops arbitrary: st)
  case Nil
  then have "frame_steps H st st' 0" by simp
  then show ?case ..
next
  case (Cons r rops)
  from Cons.prems obtain s1 where 1: "read_operand H k r st = Inr s1"
    and 2: "read_loop H k rops s1 = Inr st'"
    by (auto split: sum.splits)
  from read_operand_steps [OF 1 Cons.prems(2,3)] obtain n1 where n1: "frame_steps H st s1 n1" ..
  from n1 Cons.prems(2) have "la_valid s1" by (rule frame_steps_la_valid)
  moreover from n1 Cons.prems(3) have "todo s1 \<noteq> []" by (rule frame_steps_todo_nonempty)
  ultimately obtain n2 where "frame_steps H s1 st' n2" using Cons.IH [OF 2] by blast
  with n1 have "frame_steps H st st' (n1 + n2)" by (rule frame_steps_trans)
  then show ?case ..
qed

lemma write_phase_steps:
  assumes "write_phase H k st = Inr st'" and "la_valid st" and "todo st \<noteq> []"
  shows "\<exists>n. frame_steps H st st' n"
proof (cases "op_type (ILOCInsn_get_write_register H (hd (todo st))) = VIRTUAL_REG")
  case False
  with assms(1) have "st' = st" by (simp add: write_phase_def Let_def)
  then have "frame_steps H st st' 0" by simp
  then show ?thesis ..
next
  case True
  with assms(1) obtain pr s1 where
    a: "allocate H k (op_id (ILOCInsn_get_write_register H (hd (todo st)))) st = Inr (pr, s1)"
    and s: "st' = set_cur (replace_register (op_id (ILOCInsn_get_write_register H (hd (todo st)))) pr) s1"
    by (auto simp: write_phase_def Let_def split: sum.splits)
  from allocate_steps [OF a assms(2)] obtain n where n: "frame_steps H st s1 n" ..
  then have ne: "todo s1 \<noteq> []" using assms(3) by (rule frame_steps_todo_nonempty)
  have "frame_steps H s1 st' 0" unfolding s
    by (rule set_cur_steps) (simp_all add: ne)
  with n have "frame_steps H st st' (n + 0)" by (rule frame_steps_trans)
  then show ?thesis ..
qed

lemma spill_loop_steps:
  "spill_loop H is st = Inr st' \<Longrightarrow> la_valid st \<Longrightarrow> \<exists>n. frame_steps H st st' n"
proof (induction "is" arbitrary: st)
  case Nil
  then have "frame_steps H st st' 0" by simp
  then show ?case ..
next
  case (Cons i "is")
  show ?case
  proof (cases "phys_reg_map st ! i \<noteq> -1")
    case False
    with Cons show ?thesis by simp
  next
    case True
    with Cons.prems obtain s1 where 1: "spill H (int i) st = Inr s1"
      and 2: "spill_loop H is s1 = Inr st'"
      by (auto split: sum.splits)
    from spill_steps [OF 1 Cons.prems(2)] have n1: "frame_steps H st s1 1" .
    then have "la_valid s1" using Cons.prems(2) by (rule frame_steps_la_valid)
    with Cons.IH [OF 2] obtain n2 where "frame_steps H s1 st' n2" by blast
    with n1 have "frame_steps H st st' (1 + n2)" by (rule frame_steps_trans)
    then show ?thesis ..
  qed
qed

lemma call_phase_steps:
  assumes "call_phase H k st = Inr st'" and "la_valid st"
  shows "\<exists>n. frame_steps H st st' n"
proof -
  from assms(1) have "st' = st \<or> spill_loop H [0..<k] st = Inr st'"
    by (auto simp: call_phase_def split: if_splits)
  then show ?thesis
  proof
    assume "st' = st"
    then have "frame_steps H st st' 0" by simp
    then show ?thesis ..
  next
    assume "spill_loop H [0..<k] st = Inr st'"
    then show ?thesis using assms(2) by (rule spill_loop_steps)
  qed
qed

lemma latch_la_valid: "la_valid st \<Longrightarrow> la_valid (latch st)"
  by (auto simp: latch_def la_valid_def ref_valid_def split: list.splits option.splits insn_ref.splits)

lemma loop_body_steps:
  assumes "loop_body H k st = Inr st'" and "la_valid st" and "todo st \<noteq> []"
  shows "\<exists>n. frame_steps H (latch st) st' n"
proof -
  from assms(1) obtain s1 s2 where r: "read_phase H k (latch st) = Inr s1"
    and w: "write_phase H k s1 = Inr s2" and c: "call_phase H k s2 = Inr st'"
    by (rule loop_body_phases)
  have v0: "la_valid (latch st)" using assms(2) by (rule latch_la_valid)
  have ne0: "todo (latch st) \<noteq> []" using assms(3) by simp
  from r have "read_loop H k (ILOCInsn_get_read_registers H (hd (todo (latch st)))) (latch st) = Inr s1"
    by (simp add: read_phase_def)
  from read_loop_steps [OF this v0 ne0] obtain n1 where n1: "frame_steps H (latch st) s1 n1" ..
  from n1 v0 have v1: "la_valid s1" by (rule frame_steps_la_valid)
  from n1 ne0 have ne1: "todo s1 \<noteq> []" by (rule frame_steps_todo_nonempty)
  from write_phase_steps [OF w v1 ne1] obtain n2 where n2: "frame_steps H s1 s2 n2" ..
  from n2 v1 have v2: "la_valid s2" by (rule frame_steps_la_valid)
  from call_phase_steps [OF c v2] obtain n3 where n3: "frame_steps H s2 st' n3" ..
  from frame_steps_trans [OF n1 frame_steps_trans [OF n2 n3]] show ?thesis ..
qed

lemma imm_steps_refl [simp]: "imm_steps H st st 0"
  by (simp add: imm_steps_def)

lemma imm_steps_trans:
  assumes "imm_steps H st s1 n1" and "imm_steps H s1 s2 n2"
  shows "imm_steps H st s2 (n1 + n2)"
proof -
  have mono: "frame_imm st - int (WORD_SIZE H) * int (n1 + n2)
      \<le> frame_imm st - int (WORD_SIZE H) * int n1"
    by (simp add: distrib_left)
  have le: "frame_imm st - int (WORD_SIZE H) * int n1 \<le> frame_imm st" by simp
  show ?thesis
    unfolding imm_steps_def
  proof (intro conjI)
    show "\<not> (frame_imm st < 2147483648 \<and>
           - 2147483648 \<le> frame_imm st - int (WORD_SIZE H) * int (n1 + n2)) \<or>
       frame_imm s2 = frame_imm st - int (WORD_SIZE H) * int (n1 + n2)"
    proof (cases "frame_imm st < 2147483648 \<and>
           - 2147483648 \<le> frame_imm st - int (WORD_SIZE H) * int (n1 + n2)")
      case False
      then show ?thesis by blast
    next
      case True
      with mono have 1: "frame_imm s1 = frame_imm st - int (WORD_SIZE H) * int n1"
        using assms(1) by (auto simp: imm_steps_def)
      with True le have "frame_imm s1 < 2147483648" by linarith
      moreover from True 1
      have "- 2147483648 \<le> frame_imm s1 - int (WORD_SIZE H) * int n2"
        by (simp add: distrib_left)
      ultimately have "frame_imm s2 = frame_imm s1 - int (WORD_SIZE H) * int n2"
        using assms(2) by (auto simp: imm_steps_def)
      with 1 show ?thesis by (simp add: distrib_left)
    qed
  qed (use assms in \<open>auto simp: imm_steps_def\<close>)
qed

lemma store_count_append [simp]: "store_count (xs @ ys) = store_count xs + store_count ys"
  by (simp add: store_count_def)

lemma store_count_narrows:
  "list_all2 narrows xs ys \<Longrightarrow> store_count ys = store_count xs"
  by (induction xs ys rule: list_all2_induct) (auto simp: store_count_def narrows_def)

lemma frame_steps_imm_steps:
  assumes "frame_steps H st st' n" and "evolves st st'"
  shows "imm_steps H st st' n"
proof -
  from assms(2) have "store_count (processed st') = store_count (processed st)"
    "store_count (todo st') = store_count (todo st)"
    by (auto simp: evolves_def dest: store_count_narrows)
  with assms(1) show ?thesis
    by (auto simp: imm_steps_def frame_steps_def stream_of_def)
qed

lemma advance_stream [simp]: "todo st \<noteq> [] \<Longrightarrow> stream_of (advance st) = stream_of st"
  by (cases "todo st") (simp_all add: stream_of_def advance_def)

lemma advance_la_valid: "la_valid st \<Longrightarrow> todo st \<noteq> [] \<Longrightarrow> la_valid (advance st)"
proof (cases "local_allocator_insn st")
  case None
  then show ?thesis by (simp add: la_valid_def advance_def)
next
  case (Some r)
  assume a: "la_valid st" "todo st \<noteq> []"
  show ?thesis
  proof (cases r)
    case (In_processed i)
    with Some a show ?thesis by (simp add: la_valid_def ref_valid_def advance_def)
  next
    case (In_todo j)
    with Some a show ?thesis
      by (cases j) (auto simp: la_valid_def ref_valid_def advance_def)
  qed
qed

lemma advance_frame_imm:
  assumes "la_valid st" and "todo st \<noteq> []"
  shows "frame_imm (advance st) = frame_imm st"
proof (cases "local_allocator_insn st")
  case None
  then show ?thesis by (simp add: frame_imm_def advance_def)
next
  case (Some r)
  show ?thesis
  proof (cases r)
    case (In_processed i)
    with Some assms show ?thesis
      by (simp add: frame_imm_def advance_def insn_at_def la_valid_def ref_valid_def nth_append)
  next
    case (In_todo j)
    show ?thesis
    proof (cases j)
      case 0
      with Some In_todo assms show ?thesis
        by (cases "todo st")
          (simp_all add: frame_imm_def advance_def insn_at_def nth_append)
    next
      case (Suc j')
      with Some In_todo assms show ?thesis
        by (cases "todo st")
          (simp_all add: frame_imm_def advance_def insn_at_def)
    qed
  qed
qed

lemma advance_imm_steps:
  "la_valid st \<Longrightarrow> todo st \<noteq> [] \<Longrightarrow> imm_steps H st (advance st) 0"
  by (simp add: imm_steps_def advance_frame_imm)

lemma latch_prologue:
  "latch st =
     (if prologue_at (todo st) then st\<lparr>local_allocator_insn := Some (In_todo 2)\<rparr> else st)"
  by (cases "todo st" rule: prologue_at.cases) (auto simp: latch_def)

lemma prologue_at_forms: "map form xs = map form ys \<Longrightarrow> prologue_at xs = prologue_at ys"
  by (cases xs rule: prologue_at.cases; cases ys rule: prologue_at.cases) auto

lemma no_prologue_forms:
  "map form xs = map form ys \<Longrightarrow> no_prologue m xs = no_prologue m ys"
proof (induction m arbitrary: xs ys)
  case 0
  show ?case by simp
next
  case (Suc m)
  show ?case
  proof (cases xs)
    case Nil
    with Suc.prems show ?thesis by simp
  next
    case (Cons x xs')
    with Suc.prems obtain y ys' where ys: "ys = y # ys'" and t: "map form xs' = map form ys'"
      by (cases ys) auto
    from Suc.prems have "prologue_at xs = prologue_at ys" by (rule prologue_at_forms)
    with Suc.IH [OF t] Cons ys show ?thesis by simp
  qed
qed

lemma narrows_forms: "list_all2 narrows xs ys \<Longrightarrow> map form ys = map form xs"
  by (induction xs ys rule: list_all2_induct) (auto simp: narrows_def)

lemma evolves_forms: "evolves st st' \<Longrightarrow> map form (todo st') = map form (todo st)"
  by (auto simp: evolves_def dest: narrows_forms)

lemma iterations_done: "todo st = [] \<Longrightarrow> iterations H k m st = Inr st"
  by (cases m) simp_all

lemma iterations_add:
  "iterations H k (i + m) st =
     (case iterations H k i st of Inl e \<Rightarrow> Inl e | Inr s \<Rightarrow> iterations H k m s)"
proof (induction i arbitrary: st)
  case 0
  show ?case by simp
next
  case (Suc i)
  show ?case
  proof (cases "todo st")
    case Nil
    then show ?thesis by (simp add: iterations_done)
  next
    case (Cons insn rest)
    then show ?thesis by (simp add: Suc.IH split: sum.splits)
  qed
qed

text \<open>
  While no prologue is met, the pass keeps its frame allocator: the reservation falls
  by one word for each store spliced in.
\<close>

lemma iterations_imm_steps:
  "iterations H k m st = Inr st' \<Longrightarrow> la_valid st \<Longrightarrow> no_prologue m (todo st) \<Longrightarrow>
   local_allocator_insn st \<noteq> None \<Longrightarrow>
   (\<exists>n. imm_steps H st st' n) \<and> la_valid st' \<and> local_allocator_insn st' \<noteq> None"
proof (induction m arbitrary: st)
  case 0
  then have "st' = st" by simp
  then have "imm_steps H st st' 0" by simp
  then have "\<exists>n. imm_steps H st st' n" ..
  with 0 \<open>st' = st\<close> show ?case by simp
next
  case (Suc m)
  show ?case
  proof (cases "todo st")
    case Nil
    with Suc.prems have "st' = st" by simp
    then have "imm_steps H st st' 0" by simp
    then have "\<exists>n. imm_steps H st st' n" ..
    with Suc.prems \<open>st' = st\<close> show ?thesis by simp
  next
    case (Cons insn rest)
    with Suc.prems obtain s1 where b: "loop_body H k st = Inr s1"
      and it: "iterations H k m (advance s1) = Inr st'"
      by (auto split: sum.splits)
    have ne: "todo st \<noteq> []" using Cons by simp
    from Suc.prems(3) Cons have np: "\<not> prologue_at (todo st)" and npr: "no_prologue m rest"
      by simp_all
    have l: "latch st = st"
      using np by (simp add: latch_prologue)
    from loop_body_steps [OF b Suc.prems(2) ne] l
    obtain n1 where n1: "frame_steps H st s1 n1" by auto
    have e: "evolves st s1" using b ne by (rule loop_body_evolves)
    have i1: "imm_steps H st s1 n1" using n1 e by (rule frame_steps_imm_steps)
    have v1: "la_valid s1" using n1 Suc.prems(2) by (rule frame_steps_la_valid)
    have ne1: "todo s1 \<noteq> []" using e ne by (rule evolves_todo_nonempty)
    have la1: "local_allocator_insn s1 \<noteq> None"
      using n1 Suc.prems(4) by (simp add: frame_steps_def)
    have v2: "la_valid (advance s1)" using v1 ne1 by (rule advance_la_valid)
    have "map form (tl (todo s1)) = map form rest"
      using evolves_forms [OF e] Cons by (simp add: map_tl)
    from no_prologue_forms [OF this] npr have np2: "no_prologue m (todo (advance s1))"
      by (simp add: advance_def)
    have la2: "local_allocator_insn (advance s1) \<noteq> None"
      using la1 by (simp add: advance_def)
    from Suc.IH [OF it v2 np2 la2] obtain n2 where n2: "imm_steps H (advance s1) st' n2"
      and r: "la_valid st'" "local_allocator_insn st' \<noteq> None"
      by blast
    from imm_steps_trans [OF i1 imm_steps_trans [OF advance_imm_steps [OF v1 ne1] n2]]
    have "\<exists>n. imm_steps H st st' n" ..
    with r show ?thesis by blast
  qed
qed

text \<open>
  From a prologue on: the iteration that meets it latches its \<^verbatim>\<open>ADD_I\<close>, and the
  iterations after it keep that frame allocator until the next prologue.
\<close>

lemma frame_first:
  assumes p: "prologue_at (todo st)" and v: "la_valid st"
    and np: "no_prologue m (tl (todo st))"
    and it: "iterations H k (Suc m) st = Inr st'"
  shows "\<exists>n. imm_steps H (latch st) st' n"
proof -
  from p have ne: "todo st \<noteq> []" by (cases "todo st") simp_all
  with it obtain s1 where b: "loop_body H k st = Inr s1"
    and it': "iterations H k m (advance s1) = Inr st'"
    by (cases "todo st") (auto split: sum.splits)
  from loop_body_steps [OF b v ne] obtain n1 where n1: "frame_steps H (latch st) s1 n1" ..
  have e: "evolves st s1" using b ne by (rule loop_body_evolves)
  have e': "evolves (latch st) s1"
    using e by (auto simp: evolves_def)
  have i1: "imm_steps H (latch st) s1 n1" using n1 e' by (rule frame_steps_imm_steps)
  have v1: "la_valid s1" using n1 latch_la_valid [OF v] by (rule frame_steps_la_valid)
  have ne1: "todo s1 \<noteq> []" using e ne by (rule evolves_todo_nonempty)
  have "local_allocator_insn (latch st) \<noteq> None"
    using p by (simp add: latch_prologue)
  then have la1: "local_allocator_insn s1 \<noteq> None"
    using n1 by (simp add: frame_steps_def)
  have v2: "la_valid (advance s1)" using v1 ne1 by (rule advance_la_valid)
  have "map form (tl (todo s1)) = map form (tl (todo st))"
    using evolves_forms [OF e] by (simp add: map_tl)
  from no_prologue_forms [OF this] np have np2: "no_prologue m (todo (advance s1))"
    by (simp add: advance_def)
  have la2: "local_allocator_insn (advance s1) \<noteq> None"
    using la1 by (simp add: advance_def)
  from iterations_imm_steps [OF it' v2 np2 la2] obtain n2
    where n2: "imm_steps H (advance s1) st' n2" by blast
  from imm_steps_trans [OF i1 imm_steps_trans [OF advance_imm_steps [OF v1 ne1] n2]]
  show ?thesis ..
qed

lemma latch_frame:
  assumes "prologue_at (todo st)"
  shows "frame_imm (latch st) = op_imm (op1 (todo st ! 2))"
    and "stream_of (latch st) = stream_of st"
  using assms
  by (simp_all add: latch_prologue frame_imm_def insn_at_def stream_of_def)

text \<open>
  Instructions further ahead than the frame allocator are as in the list the pass
  started from, and the forms of all instructions to come are.
\<close>

lemma advance_la_near:
  assumes "\<And>j. local_allocator_insn st = Some (In_todo j) \<Longrightarrow> j \<le> 2"
  shows "la_near (advance st)"
proof (cases "local_allocator_insn st")
  case None
  then show ?thesis by (simp add: la_near_def advance_def)
next
  case (Some r)
  show ?thesis
  proof (cases r)
    case (In_processed i)
    with Some show ?thesis by (simp add: la_near_def advance_def)
  next
    case (In_todo j)
    with Some assms [of j] have "j \<le> 2" by simp
    with Some In_todo show ?thesis
      by (cases j) (simp_all add: la_near_def advance_def)
  qed
qed

lemma latch_la_near:
  "la_near st \<Longrightarrow> local_allocator_insn (latch st) = Some (In_todo j) \<Longrightarrow> j \<le> 2"
  by (auto simp: latch_prologue la_near_def split: if_splits)

lemma iterations_kept:
  "iterations H k i st = Inr st' \<Longrightarrow> la_valid st \<Longrightarrow> la_near st \<Longrightarrow>
   la_valid st' \<and> la_near st' \<and> map form (todo st') = drop i (map form (todo st)) \<and>
   (\<forall>l. 2 \<le> l \<and> l < length (todo st') \<longrightarrow> todo st' ! l = todo st ! (i + l))"
proof (induction i arbitrary: st)
  case 0
  then show ?case by simp
next
  case (Suc i)
  show ?case
  proof (cases "todo st")
    case Nil
    with Suc.prems have "st' = st" by simp
    with Suc.prems Nil show ?thesis by simp
  next
    case (Cons insn rest)
    with Suc.prems obtain s1 where b: "loop_body H k st = Inr s1"
      and it: "iterations H k i (advance s1) = Inr st'"
      by (auto split: sum.splits)
    have ne: "todo st \<noteq> []" using Cons by simp
    from loop_body_steps [OF b Suc.prems(2) ne]
    obtain n1 where n1: "frame_steps H (latch st) s1 n1" ..
    have e: "evolves st s1" using b ne by (rule loop_body_evolves)
    have v1: "la_valid s1"
      using n1 latch_la_valid [OF Suc.prems(2)] by (rule frame_steps_la_valid)
    have ne1: "todo s1 \<noteq> []" using e ne by (rule evolves_todo_nonempty)
    have la1: "local_allocator_insn s1 = local_allocator_insn (latch st)"
      using n1 by (simp add: frame_steps_def)
    have near1: "j \<le> 2" if "local_allocator_insn s1 = Some (In_todo j)" for j
      using that la1 latch_la_near [OF Suc.prems(3), of j] by simp
    have v2: "la_valid (advance s1)" using v1 ne1 by (rule advance_la_valid)
    have near2: "la_near (advance s1)" using near1 by (rule advance_la_near)
    from Suc.IH [OF it v2 near2]
    have r: "la_valid st'" "la_near st'"
      and f: "map form (todo st') = drop i (map form (todo (advance s1)))"
      and k: "\<forall>l. 2 \<le> l \<and> l < length (todo st') \<longrightarrow>
                todo st' ! l = todo (advance s1) ! (i + l)"
      by simp_all
    have t2: "todo (advance s1) = tl (todo s1)" by (simp add: advance_def)
    have f': "map form (todo st') = drop (Suc i) (map form (todo st))"
      using f evolves_forms [OF e] by (simp add: t2 map_tl drop_Suc)
    have k': "todo st' ! l = todo st ! (Suc i + l)" if l: "2 \<le> l" "l < length (todo st')" for l
    proof -
      have "length (todo st') = length (tl (todo s1)) - i"
        using f t2 by (metis length_drop length_map)
      with l(2) have in_range: "i + l < length (tl (todo s1))" by simp
      have "todo st' ! l = tl (todo s1) ! (i + l)" using k l t2 by simp
      also have "\<dots> = todo s1 ! Suc (i + l)" using in_range by (rule nth_tl)
      also have "\<dots> = todo (latch st) ! Suc (i + l)"
      proof -
        have "local_allocator_insn (latch st) \<noteq> Some (In_todo (Suc (i + l)))"
          using latch_la_near [OF Suc.prems(3), of "Suc (i + l)"] l(1) by auto
        with n1 show ?thesis by (simp add: frame_steps_def)
      qed
      finally show ?thesis by simp
    qed
    from r f' k' show ?thesis by simp
  qed
qed

text \<open>Until the first prologue no frame allocator is latched and no store is spliced in.\<close>

lemma iterations_unlatched:
  "iterations H k i st = Inr st' \<Longrightarrow> la_valid st \<Longrightarrow> local_allocator_insn st = None \<Longrightarrow>
   no_prologue i (todo st) \<Longrightarrow>
   local_allocator_insn st' = None \<and> store_count (stream_of st') = store_count (stream_of st)"
proof (induction i arbitrary: st)
  case 0
  then show ?case by simp
next
  case (Suc i)
  show ?case
  proof (cases "todo st")
    case Nil
    with Suc.prems have "st' = st" by simp
    with Suc.prems show ?thesis by simp
  next
    case (Cons insn rest)
    with Suc.prems obtain s1 where b: "loop_body H k st = Inr s1"
      and it: "iterations H k i (advance s1) = Inr st'"
      by (auto split: sum.splits)
    have ne: "todo st \<noteq> []" using Cons by simp
    from Suc.prems(4) Cons have np: "\<not> prologue_at (todo st)" and npr: "no_prologue i rest"
      by simp_all
    have l: "latch st = st"
      using np by (simp add: latch_prologue)
    from loop_body_steps [OF b Suc.prems(2) ne] l
    obtain n1 where n1: "frame_steps H st s1 n1" by auto
    with Suc.prems(3) have z: "n1 = 0" and la1: "local_allocator_insn s1 = None"
      by (simp_all add: frame_steps_def)
    have e: "evolves st s1" using b ne by (rule loop_body_evolves)
    have "imm_steps H st s1 n1" using n1 e by (rule frame_steps_imm_steps)
    with z have c1: "store_count (stream_of s1) = store_count (stream_of st)"
      by (simp add: imm_steps_def)
    have v1: "la_valid s1" using n1 Suc.prems(2) by (rule frame_steps_la_valid)
    have ne1: "todo s1 \<noteq> []" using e ne by (rule evolves_todo_nonempty)
    have v2: "la_valid (advance s1)" using v1 ne1 by (rule advance_la_valid)
    have "map form (tl (todo s1)) = map form rest"
      using evolves_forms [OF e] Cons by (simp add: map_tl)
    from no_prologue_forms [OF this] npr have np2: "no_prologue i (todo (advance s1))"
      by (simp add: advance_def)
    have la2: "local_allocator_insn (advance s1) = None"
      using la1 by (simp add: advance_def)
    from Suc.IH [OF it v2 la2 np2] c1 ne1 show ?thesis by simp
  qed
qed

text \<open>
  The frame whose prologue begins at index \<open>i\<close> of the list: after the iterations up
  to the next prologue, its reservation is the one of the input less one word for each
  store spliced in since the prologue was met.
\<close>

lemma frame_pass:
  assumes i: "iterations H k i (initial_state k insns) = Inr si"
    and p: "prologue_at (drop i insns)"
    and np: "no_prologue m (drop (Suc i) insns)"
    and it: "iterations H k (i + Suc m) (initial_state k insns) = Inr s2"
  shows "\<exists>n. store_count (stream_of s2) = store_count (stream_of si) + n \<and>
           (no_prologue i insns \<longrightarrow> store_count (stream_of si) = store_count insns) \<and>
           (op_imm (op1 (insns ! (i + 2))) < 2147483648 \<and>
            - 2147483648 \<le> op_imm (op1 (insns ! (i + 2))) - int (WORD_SIZE H) * int n \<longrightarrow>
              frame_imm s2 = op_imm (op1 (insns ! (i + 2))) - int (WORD_SIZE H) * int n \<and>
              (op_imm (op1 (insns ! (i + 2))) \<le> 0 \<longrightarrow>
                 \<bar>frame_imm s2\<bar> =
                   \<bar>op_imm (op1 (insns ! (i + 2)))\<bar> + int (WORD_SIZE H) * int n))"
proof -
  let ?st = "initial_state k insns"
  let ?x = "op_imm (op1 (insns ! (i + 2)))"
  have v0: "la_valid ?st" by (simp add: la_valid_def initial_state_def)
  have near0: "la_near ?st" by (simp add: la_near_def initial_state_def)
  have t0: "todo ?st = insns" by (simp add: initial_state_def)
  have "iterations H k (i + Suc m) ?st = iterations H k (Suc m) si"
    by (simp only: iterations_add [of H k i "Suc m"] i sum.case)
  with it have it2: "iterations H k (Suc m) si = Inr s2" by simp
  from iterations_kept [OF i v0 near0]
  have v: "la_valid si"
    and f: "map form (todo si) = map form (drop i insns)"
    and kept: "\<forall>l. 2 \<le> l \<and> l < length (todo si) \<longrightarrow> todo si ! l = insns ! (i + l)"
    by (simp_all add: t0 drop_map)
  from prologue_at_forms [OF f] p have pa: "prologue_at (todo si)" by simp
  then have "2 < length (todo si)" by (cases "todo si" rule: prologue_at.cases) simp_all
  with kept have a: "todo si ! 2 = insns ! (i + 2)" by simp
  have "tl (drop i insns) = drop (Suc i) insns" by (simp add: drop_Suc tl_drop)
  moreover have "map form (tl (todo si)) = map form (tl (drop i insns))"
    using f by (simp only: map_tl)
  ultimately have "map form (tl (todo si)) = map form (drop (Suc i) insns)" by simp
  from no_prologue_forms [OF this] np have npt: "no_prologue m (tl (todo si))" by simp
  from frame_first [OF pa v npt it2] obtain n where n: "imm_steps H (latch si) s2 n" ..
  define b where "b = int (WORD_SIZE H) * int n"
  have b0: "0 \<le> b" by (simp add: b_def)
  from n have c: "store_count (stream_of s2) = store_count (stream_of si) + n"
    and g: "?x < 2147483648 \<and> - 2147483648 \<le> ?x - b \<longrightarrow> frame_imm s2 = ?x - b"
    unfolding imm_steps_def latch_frame [OF pa] a b_def by auto
  have h: "?x < 2147483648 \<and> - 2147483648 \<le> ?x - b \<longrightarrow>
      frame_imm s2 = ?x - b \<and> (?x \<le> 0 \<longrightarrow> \<bar>frame_imm s2\<bar> = \<bar>?x\<bar> + b)"
    using g b0 by auto
  have u: "no_prologue i insns \<longrightarrow> store_count (stream_of si) = store_count insns"
  proof
    assume "no_prologue i insns"
    then have "no_prologue i (todo ?st)" by (simp add: t0)
    from iterations_unlatched [OF i v0 _ this]
    show "store_count (stream_of si) = store_count insns"
      by (simp add: initial_state_def stream_of_def)
  qed
  from c u h show ?thesis unfolding b_def by blast
qed

section \<open>Lemmas: the recorded offsets\<close>

lemma offsets_tracked_refl [simp]: "offsets_tracked st st"
  by (simp add: offsets_tracked_def)

lemma offsets_tracked_trans:
  assumes "offsets_tracked st s1" and "offsets_tracked s1 s2"
  shows "offsets_tracked st s2"
proof -
  from assms(1) obtain new1 where 1: "inserted s1 = new1 @ inserted st"
    "\<forall>v. offset_arr s1 v = offset_arr st v \<or> (\<exists>pr. store_ai pr (offset_arr s1 v) \<in> set new1)"
    by (auto simp: offsets_tracked_def)
  from assms(2) obtain new2 where 2: "inserted s2 = new2 @ inserted s1"
    "\<forall>v. offset_arr s2 v = offset_arr s1 v \<or> (\<exists>pr. store_ai pr (offset_arr s2 v) \<in> set new2)"
    by (auto simp: offsets_tracked_def)
  have "inserted s2 = (new2 @ new1) @ inserted st" using 1(1) 2(1) by simp
  moreover have "offset_arr s2 v = offset_arr st v \<or>
      (\<exists>pr. store_ai pr (offset_arr s2 v) \<in> set (new2 @ new1))" for v
    using 1(2) [rule_format, of v] 2(2) [rule_format, of v] by auto
  ultimately show ?thesis unfolding offsets_tracked_def by blast
qed

lemma offsets_tracked_same:
  "offset_arr st' = offset_arr st \<Longrightarrow> inserted st' = new @ inserted st \<Longrightarrow>
   offsets_tracked st st'"
  unfolding offsets_tracked_def by auto

lemma spill_tracked: "spill H pr st = Inr st' \<Longrightarrow> offsets_tracked st st'"
  unfolding offsets_tracked_def
  by (rule exI [of _ "[store_ai pr (next_offset H st)]"])
    (auto simp: spill_result(6) spill_result(8))

lemma allocate_tracked:
  assumes "allocate H k vr st = Inr (pr, st')"
  shows "offsets_tracked st st'"
proof (cases "\<exists>i<k. phys_reg_map st ! i = -1")
  case True
  then obtain i where "i < k" "phys_reg_map st ! i = -1" by blast
  from allocate_free [OF assms this] obtain j
    where "st' = st\<lparr>phys_reg_map := (phys_reg_map st)[j := vr]\<rparr>" by blast
  then show ?thesis by (simp add: offsets_tracked_def)
next
  case False
  then have "\<forall>i<k. phys_reg_map st ! i \<noteq> -1" by simp
  from allocate_full [OF assms this] obtain p s1 where
    s: "spill H (int p) st = Inr s1" "st' = s1\<lparr>phys_reg_map := (phys_reg_map s1)[p := vr]\<rparr>"
    by blast
  from spill_tracked [OF s(1)] s(2) show ?thesis by (simp add: offsets_tracked_def)
qed

lemma ensure_tracked:
  assumes "ensure H k vr st = Inr (pr, st')"
  shows "offsets_tracked st st'"
proof (cases "find (\<lambda>i. phys_reg_map st ! i = vr) [0..<k]")
  case (Some i)
  with assms have "st' = st" by (simp add: ensure_def)
  then show ?thesis by simp
next
  case None
  from ensure_not_found [OF assms None] obtain s1
    where a: "allocate H k vr st = Inr (pr, s1)"
    and l: "st' = s1 \<or> (\<exists>off. insert_load off pr s1 = Inr st')"
    by (auto split: if_splits)
  from l have "offsets_tracked s1 st'"
  proof
    assume "st' = s1" then show ?thesis by simp
  next
    assume "\<exists>off. insert_load off pr s1 = Inr st'"
    then obtain off where "insert_load off pr s1 = Inr st'" ..
    from insert_load_result(1) [OF this] show ?thesis
      by (intro offsets_tracked_same [where new = "[load_ai off pr]"]) simp_all
  qed
  with allocate_tracked [OF a] show ?thesis by (rule offsets_tracked_trans)
qed

lemma read_operand_tracked:
  assumes "read_operand H k rop st = Inr st'"
  shows "offsets_tracked st st'"
proof (cases "op_type rop = VIRTUAL_REG")
  case False
  with assms have "st' = st" by (simp add: read_operand_def)
  then show ?thesis by simp
next
  case True
  from read_operand_virtual [OF assms True] obtain pr s1
    where e: "ensure H k (op_id rop) st = Inr (pr, s1)"
    and s: "offset_arr st' = offset_arr s1" "inserted st' = inserted s1"
    by (auto simp: set_cur_def split: if_splits)
  from s have "offsets_tracked s1 st'"
    by (intro offsets_tracked_same [where new = "[]"]) simp_all
  with ensure_tracked [OF e] show ?thesis by (rule offsets_tracked_trans)
qed

lemma read_loop_tracked: "read_loop H k rops st = Inr st' \<Longrightarrow> offsets_tracked st st'"
proof (induction rops arbitrary: st)
  case Nil
  then show ?case by simp
next
  case (Cons r rops)
  from Cons.prems obtain s1 where 1: "read_operand H k r st = Inr s1"
    and 2: "read_loop H k rops s1 = Inr st'"
    by (auto split: sum.splits)
  from read_operand_tracked [OF 1] Cons.IH [OF 2] show ?case by (rule offsets_tracked_trans)
qed

lemma write_phase_tracked:
  assumes "write_phase H k st = Inr st'"
  shows "offsets_tracked st st'"
proof (cases "op_type (ILOCInsn_get_write_register H (hd (todo st))) = VIRTUAL_REG")
  case False
  with assms have "st' = st" by (simp add: write_phase_def Let_def)
  then show ?thesis by simp
next
  case True
  with assms obtain pr s1 where
    a: "allocate H k (op_id (ILOCInsn_get_write_register H (hd (todo st)))) st = Inr (pr, s1)"
    and s: "st' = set_cur (replace_register (op_id (ILOCInsn_get_write_register H (hd (todo st)))) pr) s1"
    by (auto simp: write_phase_def Let_def split: sum.splits)
  from s have "offsets_tracked s1 st'"
    by (intro offsets_tracked_same [where new = "[]"]) (simp_all add: set_cur_def)
  with allocate_tracked [OF a] show ?thesis by (rule offsets_tracked_trans)
qed

lemma spill_loop_tracked: "spill_loop H is st = Inr st' \<Longrightarrow> offsets_tracked st st'"
proof (induction "is" arbitrary: st)
  case Nil
  then show ?case by simp
next
  case (Cons i "is")
  show ?case
  proof (cases "phys_reg_map st ! i \<noteq> -1")
    case False
    with Cons show ?thesis by simp
  next
    case True
    with Cons.prems obtain s1 where 1: "spill H (int i) st = Inr s1"
      and 2: "spill_loop H is s1 = Inr st'"
      by (auto split: sum.splits)
    from spill_tracked [OF 1] Cons.IH [OF 2] show ?thesis by (rule offsets_tracked_trans)
  qed
qed

lemma loop_body_tracked:
  assumes "loop_body H k st = Inr st'"
  shows "offsets_tracked st st'"
proof -
  from assms obtain s1 s2 where r: "read_phase H k (latch st) = Inr s1"
    and w: "write_phase H k s1 = Inr s2" and c: "call_phase H k s2 = Inr st'"
    by (rule loop_body_phases)
  have 0: "offsets_tracked st (latch st)"
    by (intro offsets_tracked_same [where new = "[]"]) simp_all
  have 1: "offsets_tracked (latch st) s1"
    using r unfolding read_phase_def by (rule read_loop_tracked)
  have 2: "offsets_tracked s1 s2" using w by (rule write_phase_tracked)
  from c have "st' = s2 \<or> spill_loop H [0..<k] s2 = Inr st'"
    by (auto simp: call_phase_def split: if_splits)
  then have 3: "offsets_tracked s2 st'" by (auto dest: spill_loop_tracked)
  from offsets_tracked_trans [OF 0 offsets_tracked_trans [OF 1 offsets_tracked_trans [OF 2 3]]]
  show ?thesis .
qed

lemma ensure_reload:
  assumes e: "ensure H k vr st = Inr (pr, st')"
  shows "offset_arr st' vr = offset_arr st vr"
    and "(\<forall>i<k. phys_reg_map st ! i \<noteq> vr) \<Longrightarrow> offset_arr st vr \<noteq> -1 \<Longrightarrow>
         \<exists>rest. inserted st' = load_ai (offset_arr st vr) pr # rest"
proof -
  have *: "offset_arr st' vr = offset_arr st vr \<and>
      ((\<forall>i<k. phys_reg_map st ! i \<noteq> vr) \<longrightarrow> offset_arr st vr \<noteq> -1 \<longrightarrow>
         (\<exists>rest. inserted st' = load_ai (offset_arr st vr) pr # rest))"
  proof (cases "find (\<lambda>i. phys_reg_map st ! i = vr) [0..<k]")
    case (Some i)
    with e have "st' = st" by (simp add: ensure_def)
    moreover from Some have "i < k" "phys_reg_map st ! i = vr" by (simp_all add: find_upt_Some)
    ultimately show ?thesis by auto
  next
    case None
    then have nr: "\<forall>i<k. phys_reg_map st ! i \<noteq> vr" by (simp add: find_upt_None)
    from ensure_not_found [OF e None] obtain s1
      where a: "allocate H k vr st = Inr (pr, s1)"
      and l: "if offset_arr s1 vr \<noteq> -1 then insert_load (offset_arr s1 vr) pr s1 = Inr st'
            else st' = s1"
      by blast
    have o1: "offset_arr s1 vr = offset_arr st vr"
    proof (cases "\<exists>i<k. phys_reg_map st ! i = -1")
      case True
      then obtain i where "i < k" "phys_reg_map st ! i = -1" by blast
      from allocate_free [OF a this] show ?thesis by auto
    next
      case False
      then have "\<forall>i<k. phys_reg_map st ! i \<noteq> -1" by simp
      from allocate_full [OF a this] obtain p s0 where p: "p < k"
        "spill H (int p) st = Inr s0" "s1 = s0\<lparr>phys_reg_map := (phys_reg_map s0)[p := vr]\<rparr>"
        by blast
      from nr p(1) have "phys_reg_map st ! p \<noteq> vr" by simp
      with spill_result(6) [OF p(2)] p(3) show ?thesis by simp
    qed
    show ?thesis
    proof (cases "offset_arr s1 vr \<noteq> -1")
      case True
      with l have "insert_load (offset_arr s1 vr) pr s1 = Inr st'" by simp
      from insert_load_result(1) [OF this] o1 show ?thesis by simp
    next
      case False
      with l o1 show ?thesis by simp
    qed
  qed
  from * show "offset_arr st' vr = offset_arr st vr" by simp
  assume "\<forall>i<k. phys_reg_map st ! i \<noteq> vr" "offset_arr st vr \<noteq> -1"
  with * show "\<exists>rest. inserted st' = load_ai (offset_arr st vr) pr # rest" by simp
qed

lemma insert_spill_one_word:
  assumes "insert_spill H pr st = Inr (off, s1)" and "la_valid st"
  shows "off = frame_imm s1" and "frame_imm s1 = to_int (frame_imm st - int (WORD_SIZE H))"
    and "- 2147483648 \<le> frame_imm st - int (WORD_SIZE H) \<Longrightarrow>
         frame_imm st - int (WORD_SIZE H) < 2147483648 \<Longrightarrow>
         frame_imm s1 = frame_imm st - int (WORD_SIZE H)"
  using insert_spill_frame [OF assms] insert_spill_result(1) [OF assms(1)]
  by (simp_all add: next_offset_def to_int_id)

section \<open>Lemmas: states in which no operation fails\<close>

lemma ids_in_range_narrows: "ids_in_range H a \<Longrightarrow> narrows a b \<Longrightarrow> ids_in_range H b"
  by (auto simp: ids_in_range_def id_in_range_def narrows_def op_narrows_def)

lemma evolves_ids:
  "evolves st st' \<Longrightarrow> list_all (ids_in_range H) (todo st) \<Longrightarrow>
   list_all (ids_in_range H) (todo st')"
  by (auto simp: evolves_def
      intro: list_all_narrows [where P = "ids_in_range H", OF ids_in_range_narrows])

lemma entry_ok_update:
  "list_all (entry_ok H) m \<Longrightarrow> entry_ok H v \<Longrightarrow> list_all (entry_ok H) (m[i := v])"
  using set_update_subset_insert [of m i v] by (auto simp: list_all_iff)

lemma entry_ok_free [simp]: "entry_ok H (-1)"
  by (simp add: entry_ok_def)

lemma la_valid_fields [simp]:
  "la_valid (st\<lparr>phys_reg_map := m\<rparr>) = la_valid st"
  "la_valid (st\<lparr>inserted := x\<rparr>) = la_valid st"
  "la_valid (st\<lparr>offset_arr := f\<rparr>) = la_valid st"
  by (auto simp: la_valid_def ref_valid_def split: option.splits insn_ref.splits)

lemma ready_step:
  assumes "ready H k st" and "evolves st st'" and "frame_steps H st st' n"
    and "length (phys_reg_map st') = length (phys_reg_map st)"
    and "list_all (entry_ok H) (phys_reg_map st')"
  shows "ready H k st'"
  using assms evolves_processed_nonempty [OF assms(2)] evolves_ids [OF assms(2)]
    frame_steps_la_valid [OF assms(3)]
  by (auto simp: ready_def frame_steps_def)

lemma spill_ready:
  assumes r: "ready H k st" and pr: "0 \<le> pr" "nat pr < k"
    and res: "phys_reg_map st ! nat pr \<noteq> -1"
  shows "\<exists>st'. spill H pr st = Inr st' \<and> ready H k st'"
proof -
  from r pr(2) have "entry_ok H (phys_reg_map st ! nat pr)"
    by (simp add: ready_def list_all_length)
  with res have range: "0 \<le> phys_reg_map st ! nat pr"
    "phys_reg_map st ! nat pr < int (MAX_VIRTUAL_REGS H)"
    by (auto simp: entry_ok_def)
  from r pr have "\<exists>st'. spill H pr st = Inr st'"
    by (intro spill_succeeds range) (simp_all add: ready_def)
  then obtain st' where s: "spill H pr st = Inr st'" ..
  from r have v: "la_valid st" by (simp add: ready_def)
  have "ready H k st'"
    using r evolves_spill [OF s] spill_steps [OF s v]
  proof (rule ready_step)
    show "length (phys_reg_map st') = length (phys_reg_map st)"
      by (simp add: spill_result(5) [OF s])
    show "list_all (entry_ok H) (phys_reg_map st')"
      using r by (simp add: spill_result(5) [OF s] ready_def entry_ok_update)
  qed
  with s show ?thesis by blast
qed

lemma allocate_ready:
  assumes r: "ready H k st" and vr: "entry_ok H vr"
  shows "\<exists>pr st'. allocate H k vr st = Inr (pr, st') \<and> ready H k st' \<and> 0 \<le> pr \<and> nat pr < k"
proof (cases "find (\<lambda>i. phys_reg_map st ! i = -1) [0..<k]")
  case (Some i)
  then have a: "allocate H k vr st = Inr (int i, st\<lparr>phys_reg_map := (phys_reg_map st)[i := vr]\<rparr>)"
    by (simp add: allocate_def)
  from Some have "i < k" by (simp add: find_upt_Some)
  moreover have "ready H k (st\<lparr>phys_reg_map := (phys_reg_map st)[i := vr]\<rparr>)"
    using r vr by (simp add: ready_def entry_ok_update)
  ultimately show ?thesis using a by auto
next
  case None
  then have full: "\<forall>i<k. phys_reg_map st ! i \<noteq> -1" by (simp add: find_upt_None)
  from r have "0 < k" by (simp add: ready_def)
  from max_loop_spec [OF this, of H st] obtain p where p: "fst (max_loop H k st) = int p" "p < k"
    by blast
  with full have "phys_reg_map st ! nat (int p) \<noteq> -1" by simp
  with spill_ready [OF r, of "int p"] p(2) obtain s1
    where s: "spill H (int p) st = Inr s1" and r1: "ready H k s1"
    by auto
  from None s p(1) have a: "allocate H k vr st =
      Inr (int p, s1\<lparr>phys_reg_map := (phys_reg_map s1)[p := vr]\<rparr>)"
    by (simp add: allocate_def Let_def)
  have "ready H k (s1\<lparr>phys_reg_map := (phys_reg_map s1)[p := vr]\<rparr>)"
    using r1 vr by (simp add: ready_def entry_ok_update)
  with a p(2) show ?thesis by auto
qed

lemma insert_load_ready:
  assumes "ready H k st"
  shows "\<exists>st'. insert_load off pr st = Inr st' \<and> ready H k st'"
proof -
  from assms have "insert_load off pr st = Inr (st\<lparr>inserted := load_ai off pr # inserted st\<rparr>)"
    by (simp add: insert_load_def ready_def load_ai_def)
  moreover have "ready H k (st\<lparr>inserted := load_ai off pr # inserted st\<rparr>)"
    using assms by (simp add: ready_def)
  ultimately show ?thesis by blast
qed

lemma ensure_ready:
  assumes r: "ready H k st" and vr: "0 \<le> vr" "vr < int (MAX_VIRTUAL_REGS H)"
  shows "\<exists>pr st'. ensure H k vr st = Inr (pr, st') \<and> ready H k st' \<and> 0 \<le> pr \<and> nat pr < k"
proof (cases "find (\<lambda>i. phys_reg_map st ! i = vr) [0..<k]")
  case (Some i)
  then have "ensure H k vr st = Inr (int i, st)" by (simp add: ensure_def)
  moreover from Some have "i < k" by (simp add: find_upt_Some)
  ultimately show ?thesis using r by auto
next
  case None
  from vr have "entry_ok H vr" by (simp add: entry_ok_def)
  from allocate_ready [OF r this] obtain pr s1 where a: "allocate H k vr st = Inr (pr, s1)"
    and r1: "ready H k s1" and pr: "0 \<le> pr" "nat pr < k"
    by blast
  show ?thesis
  proof (cases "offset_arr s1 vr \<noteq> -1")
    case True
    from insert_load_ready [OF r1, of "offset_arr s1 vr" pr] obtain s2
      where l: "insert_load (offset_arr s1 vr) pr s1 = Inr s2" and r2: "ready H k s2"
      by blast
    from None a vr True l have "ensure H k vr st = Inr (pr, s2)"
      by (simp add: ensure_def)
    with r2 pr show ?thesis by auto
  next
    case False
    with None a vr have "ensure H k vr st = Inr (pr, s1)"
      by (simp add: ensure_def)
    with r1 pr show ?thesis by auto
  qed
qed

lemma set_cur_ready:
  assumes "ready H k st" and "todo st \<noteq> []"
  shows "ready H k (set_cur (replace_register vr pr) st)"
proof -
  have e: "evolves st (set_cur (replace_register vr pr) st)"
    by (rule evolves_set_cur) (simp_all add: assms(2))
  have f: "frame_steps H st (set_cur (replace_register vr pr) st) 0"
    by (rule set_cur_steps) (simp_all add: assms(2))
  from assms(1) e f show ?thesis
    by (rule ready_step) (use assms(1) in \<open>simp_all add: set_cur_def ready_def\<close>)
qed

lemma ready_free:
  "ready H k st \<Longrightarrow> ready H k (st\<lparr>phys_reg_map := (phys_reg_map st)[i := -1]\<rparr>)"
  by (simp add: ready_def entry_ok_update)

lemma read_operand_ready:
  assumes r: "ready H k st" and ne: "todo st \<noteq> []" and ok: "id_in_range H rop"
  shows "\<exists>st'. read_operand H k rop st = Inr st' \<and> ready H k st' \<and> todo st' \<noteq> []"
proof (cases "op_type rop = VIRTUAL_REG")
  case False
  with r ne show ?thesis by (simp add: read_operand_def)
next
  case True
  with ok have "0 \<le> op_id rop" "op_id rop < int (MAX_VIRTUAL_REGS H)"
    by (simp_all add: id_in_range_def)
  from ensure_ready [OF r this] obtain pr s1
    where e: "ensure H k (op_id rop) st = Inr (pr, s1)" and r1: "ready H k s1"
    by blast
  have ne1: "todo s1 \<noteq> []" using evolves_ensure [OF e] ne by (rule evolves_todo_nonempty)
  let ?s2 = "set_cur (replace_register (op_id rop) pr) s1"
  have r2: "ready H k ?s2" using r1 ne1 by (rule set_cur_ready)
  have ne2: "todo ?s2 \<noteq> []" by (simp add: set_cur_def)
  have m: "phys_reg_map ?s2 = phys_reg_map s1" by (simp add: set_cur_def)
  show ?thesis
  proof (cases "dist H (op_id rop) (tl (todo ?s2)) = int (MAX_VIRTUAL_REGS H)")
    case True
    with \<open>op_type rop = VIRTUAL_REG\<close> e
    have "read_operand H k rop st = Inr (?s2\<lparr>phys_reg_map := (phys_reg_map ?s2)[nat pr := -1]\<rparr>)"
      by (simp add: read_operand_def Let_def)
    with ready_free [OF r2] ne2 show ?thesis by simp
  next
    case False
    with \<open>op_type rop = VIRTUAL_REG\<close> e
    have "read_operand H k rop st = Inr ?s2"
      by (simp add: read_operand_def Let_def)
    with r2 ne2 show ?thesis by simp
  qed
qed

lemma read_loop_ready:
  "ready H k st \<Longrightarrow> todo st \<noteq> [] \<Longrightarrow> list_all (id_in_range H) rops \<Longrightarrow>
   \<exists>st'. read_loop H k rops st = Inr st' \<and> ready H k st' \<and> todo st' \<noteq> []"
proof (induction rops arbitrary: st)
  case Nil
  then show ?case by simp
next
  case (Cons r rops)
  from Cons.prems(3) have "id_in_range H r" by simp
  from read_operand_ready [OF Cons.prems(1,2) this] obtain s1
    where 1: "read_operand H k r st = Inr s1" and r1: "ready H k s1" and ne1: "todo s1 \<noteq> []"
    by blast
  from Cons.prems(3) have "list_all (id_in_range H) rops" by simp
  from Cons.IH [OF r1 ne1 this] 1 show ?case by simp
qed

lemma id_in_range_empty [simp]: "id_in_range H empty_operand"
  by (simp add: id_in_range_def empty_operand_def)

lemma id_in_range_op_at: "ids_in_range H a \<Longrightarrow> id_in_range H (op_at a i)"
  by (simp add: ids_in_range_def op_at_def)

lemma read_registers_in_range:
  "ids_in_range H a \<Longrightarrow> list_all (id_in_range H) (ILOCInsn_get_read_registers H a)"
  by (simp add: ILOCInsn_get_read_registers_def id_in_range_op_at)

lemma write_register_in_range:
  "ids_in_range H a \<Longrightarrow> id_in_range H (ILOCInsn_get_write_register H a)"
  by (simp add: ILOCInsn_get_write_register_def id_in_range_op_at split: option.splits)

lemma ready_hd: "ready H k st \<Longrightarrow> todo st \<noteq> [] \<Longrightarrow> ids_in_range H (hd (todo st))"
  by (cases "todo st") (simp_all add: ready_def)

lemma read_phase_ready:
  assumes "ready H k st" and "todo st \<noteq> []"
  shows "\<exists>st'. read_phase H k st = Inr st' \<and> ready H k st' \<and> todo st' \<noteq> []"
  unfolding read_phase_def
  using assms by (intro read_loop_ready read_registers_in_range ready_hd)

lemma write_phase_ready:
  assumes r: "ready H k st" and ne: "todo st \<noteq> []"
  shows "\<exists>st'. write_phase H k st = Inr st' \<and> ready H k st'"
proof (cases "op_type (ILOCInsn_get_write_register H (hd (todo st))) = VIRTUAL_REG")
  case False
  with r show ?thesis by (simp add: write_phase_def Let_def)
next
  case True
  let ?vr = "op_id (ILOCInsn_get_write_register H (hd (todo st)))"
  from write_register_in_range [OF ready_hd [OF r ne]] True
  have "entry_ok H ?vr" by (simp add: id_in_range_def entry_ok_def)
  from allocate_ready [OF r this] obtain pr s1 where a: "allocate H k ?vr st = Inr (pr, s1)"
    and r1: "ready H k s1"
    by blast
  have ne1: "todo s1 \<noteq> []" using evolves_allocate [OF a] ne by (rule evolves_todo_nonempty)
  from True a have "write_phase H k st = Inr (set_cur (replace_register ?vr pr) s1)"
    by (simp add: write_phase_def Let_def)
  with set_cur_ready [OF r1 ne1] show ?thesis by simp
qed

lemma spill_loop_ready:
  "ready H k st \<Longrightarrow> \<forall>i\<in>set is. i < k \<Longrightarrow>
   \<exists>st'. spill_loop H is st = Inr st' \<and> ready H k st'"
proof (induction "is" arbitrary: st)
  case Nil
  then show ?case by simp
next
  case (Cons i "is")
  show ?case
  proof (cases "phys_reg_map st ! i \<noteq> -1")
    case False
    with Cons show ?thesis by simp
  next
    case True
    from Cons.prems(2) have "i < k" by simp
    with spill_ready [OF Cons.prems(1), of "int i"] True obtain s1
      where s: "spill H (int i) st = Inr s1" and r1: "ready H k s1"
      by auto
    from Cons.prems(2) have "\<forall>j\<in>set is. j < k" by simp
    from Cons.IH [OF r1 this] True s show ?thesis by simp
  qed
qed

lemma call_phase_ready:
  assumes "ready H k st"
  shows "\<exists>st'. call_phase H k st = Inr st' \<and> ready H k st'"
proof (cases "form (hd (todo st)) = CALL \<and> processed st \<noteq> []")
  case True
  with spill_loop_ready [OF assms, of "[0..<k]"] show ?thesis
    by (simp add: call_phase_def)
next
  case False
  with assms show ?thesis by (auto simp: call_phase_def)
qed

lemma latch_ready: "ready H k st \<Longrightarrow> ready H k (latch st)"
  by (auto simp: ready_def intro: latch_la_valid) (auto simp: latch_def split: list.splits)

lemma loop_body_ready:
  assumes r: "ready H k st" and ne: "todo st \<noteq> []"
  shows "\<exists>st'. loop_body H k st = Inr st' \<and> ready H k st' \<and> todo st' \<noteq> []"
proof -
  have r0: "ready H k (latch st)" using r by (rule latch_ready)
  have ne0: "todo (latch st) \<noteq> []" using ne by simp
  from read_phase_ready [OF r0 ne0] obtain s1 where 1: "read_phase H k (latch st) = Inr s1"
    and r1: "ready H k s1" and ne1: "todo s1 \<noteq> []" by blast
  from write_phase_ready [OF r1 ne1] obtain s2 where 2: "write_phase H k s1 = Inr s2"
    and r2: "ready H k s2" by blast
  from call_phase_ready [OF r2] obtain s3 where 3: "call_phase H k s2 = Inr s3"
    and r3: "ready H k s3" by blast
  from 1 2 3 have b: "loop_body H k st = Inr s3" by (simp add: loop_body_def)
  from evolves_todo_nonempty [OF loop_body_evolves [OF b ne] ne] b r3 show ?thesis by simp
qed

lemma advance_ready:
  assumes "ready H k st" and "todo st \<noteq> []"
  shows "ready H k (advance st)"
proof -
  from assms have "la_valid (advance st)" by (intro advance_la_valid) (simp_all add: ready_def)
  moreover from assms have "list_all (ids_in_range H) (todo (advance st))"
    by (cases "todo st") (simp_all add: ready_def advance_def)
  ultimately show ?thesis using assms(1) by (simp add: ready_def) (simp add: advance_def)
qed

lemma iterations_ready:
  "ready H k st \<Longrightarrow> \<exists>st'. iterations H k n st = Inr st'"
proof (induction n arbitrary: st)
  case 0
  then show ?case by simp
next
  case (Suc n)
  show ?case
  proof (cases "todo st")
    case Nil
    then show ?thesis by simp
  next
    case (Cons insn rest)
    then have ne: "todo st \<noteq> []" by simp
    from loop_body_ready [OF Suc.prems ne] obtain s1 where b: "loop_body H k st = Inr s1"
      and r1: "ready H k s1" and ne1: "todo s1 \<noteq> []" by blast
    from Suc.IH [OF advance_ready [OF r1 ne1]] obtain st'
      where "iterations H k n (advance s1) = Inr st'" ..
    with Cons b show ?thesis by simp
  qed
qed

lemma framed_prefixE:
  assumes "framed_prefix xs"
  obtains p i a rest where "xs = p # i # a # rest" and "no_virtual p"
    and "(form p = PUSH \<and> form i = I2I \<and> form a = ADD_I) \<or> framed_prefix (i # a # rest)"
  using assms by (cases xs rule: framed_prefix.cases) auto

lemma spill_loop_all_free:
  "all_free (phys_reg_map st) \<Longrightarrow> \<forall>i\<in>set is. i < length (phys_reg_map st) \<Longrightarrow>
   spill_loop H is st = Inr st"
  by (induction "is") (auto simp: all_free_def list_all_length)

lemma quiet_body:
  assumes q: "quiet H k st"
  shows "loop_body H k st = Inr (latch st)"
proof -
  from q have "framed_prefix (todo st)" by (simp add: quiet_def)
  then obtain p i a rest where t: "todo st = p # i # a # rest" and nv: "no_virtual p"
    by (rule framed_prefixE)
  from t nv have nv': "no_virtual (hd (todo (latch st)))" by simp
  have "call_phase H k (latch st) = Inr (latch st)"
    using q by (auto simp: call_phase_def quiet_def intro!: spill_loop_all_free)
  with nv' show ?thesis
    by (simp add: loop_body_def read_phase_no_virtual write_phase_no_virtual)
qed

lemma all_free_entry_ok: "all_free m \<Longrightarrow> list_all (entry_ok H) m"
  by (auto simp: all_free_def list_all_iff)

lemma quiet_advance:
  assumes q: "quiet H k st"
  shows "ready H k (advance (latch st)) \<or> quiet H k (advance (latch st))"
proof -
  from q have "framed_prefix (todo st)" by (simp add: quiet_def)
  then obtain p i a rest where t: "todo st = p # i # a # rest" and nv: "no_virtual p"
    and d: "(form p = PUSH \<and> form i = I2I \<and> form a = ADD_I) \<or> framed_prefix (i # a # rest)"
    by (rule framed_prefixE)
  show ?thesis
  proof (cases "form p = PUSH \<and> form i = I2I \<and> form a = ADD_I")
    case True
    with t have l: "latch st = st\<lparr>local_allocator_insn := Some (In_todo 2)\<rparr>"
      by (simp add: latch_def)
    have "ready H k (advance (latch st))"
      using q t unfolding l
      by (simp add: ready_def quiet_def advance_def all_free_entry_ok la_valid_def ref_valid_def
          numeral_2_eq_2)
    then show ?thesis ..
  next
    case False
    with d have f: "framed_prefix (i # a # rest)" by simp
    from False t have l: "latch st = st" by (auto simp: latch_def)
    from q t have "la_valid (advance st)" by (intro advance_la_valid) (simp_all add: quiet_def)
    with q t f have "quiet H k (advance (latch st))"
      unfolding l by (simp add: quiet_def) (simp add: advance_def)
    then show ?thesis ..
  qed
qed

lemma iterations_quiet: "quiet H k st \<Longrightarrow> \<exists>st'. iterations H k n st = Inr st'"
proof (induction n arbitrary: st)
  case 0
  then show ?case by simp
next
  case (Suc n)
  from Suc.prems have "framed_prefix (todo st)" by (simp add: quiet_def)
  then obtain p rest where t: "todo st = p # rest" by (auto elim: framed_prefixE)
  from quiet_advance [OF Suc.prems] have "\<exists>st'. iterations H k n (advance (latch st)) = Inr st'"
    by (auto intro: iterations_ready Suc.IH)
  with t quiet_body [OF Suc.prems] show ?case by simp
qed

lemma initial_quiet:
  "0 < k \<Longrightarrow> framed_prefix insns \<Longrightarrow> list_all (ids_in_range H) insns \<Longrightarrow>
   quiet H k (initial_state k insns)"
  by (simp add: quiet_def initial_state_def all_free_def la_valid_def list_all_length)

lemma framed_completes:
  assumes "0 < n" and "framed_prefix insns" and "list_all (ids_in_range H) insns"
  shows "completes (allocate_registers H (Some insns) n)"
proof -
  from assms(1) have "0 < nat n" by simp
  from iterations_quiet [OF initial_quiet [OF this assms(2,3)]]
  obtain st' where "for_each H (nat n) (initial_state (nat n) insns) = Inr st'"
    unfolding for_each_def by blast
  with assms(1) show ?thesis by (simp add: allocate_registers_def completes_def)
qed

section \<open>Lemmas: the resulting list is the given one with spill code woven in\<close>

lemma spill_code_narrows: "spill_code s \<Longrightarrow> narrows s s' \<Longrightarrow> spill_code s'"
  by (auto simp: spill_code_def narrows_def op_narrows_def)

lemma weave_narrows:
  "weave xs ys \<Longrightarrow> list_all2 narrows ys ys' \<Longrightarrow> weave xs ys'"
proof (induction ys arbitrary: xs ys')
  case Nil
  then show ?case by simp
next
  case (Cons y ys)
  from Cons.prems(2) obtain z zs where ys': "ys' = z # zs" and n: "narrows y z"
    and r: "list_all2 narrows ys zs"
    by (auto simp: list_all2_Cons1)
  from Cons.prems(1) show ?case
  proof (simp only: weave.simps, elim disjE conjE)
    assume "spill_code y" "weave xs ys"
    with Cons.IH [OF _ r] n show "weave xs ys'"
      unfolding ys' by (auto intro: spill_code_narrows)
  next
    assume c: "case xs of [] \<Rightarrow> False | x # xs' \<Rightarrow> narrows x y \<and> weave xs' ys"
    then obtain x xs' where xs: "xs = x # xs'" and "narrows x y" "weave xs' ys"
      by (cases xs) auto
    with Cons.IH [OF _ r] n show "weave xs ys'"
      unfolding ys' by (auto intro: narrows_trans)
  qed
qed

lemma weave_spill_code: "list_all spill_code new \<Longrightarrow> weave xs zs \<Longrightarrow> weave xs (new @ zs)"
  by (induction new) auto

lemma weave_insert:
  "weave xs (ys @ zs) \<Longrightarrow> list_all spill_code new \<Longrightarrow> weave xs (ys @ new @ zs)"
proof (induction ys arbitrary: xs)
  case Nil
  then show ?case by (simp add: weave_spill_code)
next
  case (Cons y ys)
  from Cons.prems(1) show ?case
  proof (simp only: append_Cons weave.simps, elim disjE conjE)
    assume "spill_code y" "weave xs (ys @ zs)"
    with Cons.IH [OF _ Cons.prems(2)] show "spill_code y \<and> weave xs (ys @ new @ zs) \<or>
      (case xs of [] \<Rightarrow> False | x # xs' \<Rightarrow> narrows x y \<and> weave xs' (ys @ new @ zs))"
      by simp
  next
    assume c: "case xs of [] \<Rightarrow> False | x # xs' \<Rightarrow> narrows x y \<and> weave xs' (ys @ zs)"
    then obtain x xs' where xs: "xs = x # xs'" and "narrows x y" "weave xs' (ys @ zs)"
      by (cases xs) auto
    with Cons.IH [OF _ Cons.prems(2)] show "spill_code y \<and> weave xs (ys @ new @ zs) \<or>
      (case xs of [] \<Rightarrow> False | x # xs' \<Rightarrow> narrows x y \<and> weave xs' (ys @ new @ zs))"
      by simp
  qed
qed

lemma weave_snoc: "weave xs ys \<Longrightarrow> narrows x y \<Longrightarrow> weave (xs @ [x]) (ys @ [y])"
proof (induction ys arbitrary: xs)
  case Nil
  then show ?case by simp
next
  case (Cons z zs)
  from Cons.prems(1) show ?case
  proof (simp only: append_Cons weave.simps, elim disjE conjE)
    assume "spill_code z" "weave xs zs"
    with Cons.IH [OF _ Cons.prems(2)] show "spill_code z \<and> weave (xs @ [x]) (zs @ [y]) \<or>
      (case xs @ [x] of [] \<Rightarrow> False | x' # xs' \<Rightarrow> narrows x' z \<and> weave xs' (zs @ [y]))"
      by simp
  next
    assume c: "case xs of [] \<Rightarrow> False | x' # xs' \<Rightarrow> narrows x' z \<and> weave xs' zs"
    then obtain x' xs' where xs: "xs = x' # xs'" and "narrows x' z" "weave xs' zs"
      by (cases xs) auto
    with Cons.IH [OF _ Cons.prems(2)] show "spill_code z \<and> weave (xs @ [x]) (zs @ [y]) \<or>
      (case xs @ [x] of [] \<Rightarrow> False | x' # xs' \<Rightarrow> narrows x' z \<and> weave xs' (zs @ [y]))"
      by simp
  qed
qed

lemma evolves_weave_inv:
  assumes e: "evolves st st'" and w: "weave_inv insns st"
  shows "weave_inv insns st'"
proof -
  from w obtain finished rest where i: "insns = finished @ rest"
    and wv: "weave finished (processed st @ inserted st)"
    and r: "list_all2 narrows rest (todo st)"
    by (auto simp: weave_inv_def)
  from e obtain new where p: "list_all2 narrows (processed st) (processed st')"
    and t: "list_all2 narrows (todo st) (todo st')"
    and n: "inserted st' = new @ inserted st" "list_all spill_code new"
    by (auto simp: evolves_def)
  from p have "list_all2 narrows (processed st @ inserted st) (processed st' @ inserted st)"
    by (simp add: list_all2_appendI)
  with wv have "weave finished (processed st' @ inserted st)" by (rule weave_narrows)
  then have "weave finished (processed st' @ new @ inserted st)"
    using n(2) by (rule weave_insert)
  moreover have "list_all2 narrows rest (todo st')"
    using r t by (rule list_all2_narrows_trans)
  ultimately show ?thesis using i n(1) unfolding weave_inv_def by auto
qed

lemma advance_weave_inv:
  assumes w: "weave_inv insns st" and ne: "todo st \<noteq> []"
  shows "weave_inv insns (advance st)"
proof -
  from w obtain finished rest where i: "insns = finished @ rest"
    and wv: "weave finished (processed st @ inserted st)"
    and r: "list_all2 narrows rest (todo st)"
    by (auto simp: weave_inv_def)
  from ne obtain c cs where t: "todo st = c # cs" by (cases "todo st") auto
  with r obtain x xs where rest: "rest = x # xs" and n: "narrows x c"
    and r': "list_all2 narrows xs cs"
    by (auto simp: list_all2_Cons2)
  from wv n have "weave (finished @ [x]) ((processed st @ inserted st) @ [c])"
    by (rule weave_snoc)
  with i rest r' t show ?thesis
    unfolding weave_inv_def advance_def
    by (intro exI [of _ "finished @ [x]"] exI [of _ xs]) simp
qed

lemma iterations_weave_inv:
  "iterations H k n st = Inr st' \<Longrightarrow> weave_inv insns st \<Longrightarrow> weave_inv insns st'"
proof (induction n arbitrary: st)
  case 0
  then show ?case by simp
next
  case (Suc n)
  show ?case
  proof (cases "todo st")
    case Nil
    with Suc.prems show ?thesis by simp
  next
    case (Cons insn rest)
    with Suc.prems obtain s1 where b: "loop_body H k st = Inr s1"
      and it: "iterations H k n (advance s1) = Inr st'"
      by (auto split: sum.splits)
    have ne: "todo st \<noteq> []" using Cons by simp
    have e: "evolves st s1" using b ne by (rule loop_body_evolves)
    have "weave_inv insns s1" using e Suc.prems(2) by (rule evolves_weave_inv)
    moreover have "todo s1 \<noteq> []" using e ne by (rule evolves_todo_nonempty)
    ultimately have "weave_inv insns (advance s1)" by (rule advance_weave_inv)
    with Suc.IH it show ?thesis by blast
  qed
qed

lemma initial_weave_inv: "weave_inv insns (initial_state k insns)"
  unfolding weave_inv_def initial_state_def
  by (intro exI [of _ "[]"] exI [of _ insns]) simp

lemma output_weave:
  assumes "allocate_registers H (Some insns) n = Inr (Some out)"
  shows "weave insns out"
proof -
  from assms obtain st where f: "for_each H (nat n) (initial_state (nat n) insns) = Inr st"
    and out: "out = stream_of st"
    by (auto simp: allocate_registers_def split: if_splits sum.splits)
  from f have "weave_inv insns st"
    unfolding for_each_def using initial_weave_inv by (rule iterations_weave_inv)
  then show ?thesis
    by (auto simp: weave_inv_def out stream_of_def for_each_exhausts [OF f])
qed

section \<open>Lemmas: which operations keep the register file free of duplicates\<close>

text \<open>
  \<open>ensure\<close>, \<open>spill\<close>, the processing of the read registers and the spills at a
  call keep a register file without duplicates so; \<open>allocate\<close> and the processing
  of the written register do so only when the register they are given is not resident.
\<close>

lemma register_file_ok_preserved:
  assumes "register_file_ok (phys_reg_map st)" and "length (phys_reg_map st) = k"
  shows "(ensure H k vr st = Inr (pr1, s1) \<longrightarrow> register_file_ok (phys_reg_map s1)) \<and>
         (spill H pr2 st = Inr s2 \<longrightarrow> register_file_ok (phys_reg_map s2)) \<and>
         (read_phase H k st = Inr s3 \<longrightarrow> register_file_ok (phys_reg_map s3)) \<and>
         (call_phase H k st = Inr s4 \<longrightarrow> register_file_ok (phys_reg_map s4)) \<and>
         (allocate H k vr st = Inr (pr5, s5) \<and> vr \<notin> set (phys_reg_map st) \<longrightarrow>
            register_file_ok (phys_reg_map s5)) \<and>
         (write_phase H k st = Inr s6 \<and> write_is_fresh H st \<longrightarrow>
            register_file_ok (phys_reg_map s6))"
proof (intro conjI impI)
  assume "ensure H k vr st = Inr (pr1, s1)"
  then show "register_file_ok (phys_reg_map s1)" using assms by (rule ensure_ok)
next
  assume "spill H pr2 st = Inr s2"
  then show "register_file_ok (phys_reg_map s2)" using assms(1) by (rule spill_ok)
next
  assume "read_phase H k st = Inr s3"
  from read_phase_map(2) [OF this assms] show "register_file_ok (phys_reg_map s3)" .
next
  assume "call_phase H k st = Inr s4"
  from call_phase_map(2) [OF this assms(1)] show "register_file_ok (phys_reg_map s4)" .
next
  assume "allocate H k vr st = Inr (pr5, s5) \<and> vr \<notin> set (phys_reg_map st)"
  then show "register_file_ok (phys_reg_map s5)" using assms(1) by (auto intro: allocate_ok)
next
  assume a: "write_phase H k st = Inr s6 \<and> write_is_fresh H st"
  then have "op_type (ILOCInsn_get_write_register H (hd (todo st))) = VIRTUAL_REG \<longrightarrow>
      op_id (ILOCInsn_get_write_register H (hd (todo st))) \<notin> set (phys_reg_map st)"
    by (auto simp: write_is_fresh_def)
  with a write_phase_map(2) [of H k st s6] assms(1)
  show "register_file_ok (phys_reg_map s6)" by blast
qed


section \<open>The claims\<close>

text \<open>
  C1. When \<open>allocate_registers\<close> completes on a list in which every virtual register
  operand stands in a slot its instruction reads or writes, no instruction of the
  resulting list, the spliced stores and loads included, has an operand with the
  virtual register tag. The resulting list is the given one, instruction by instruction
  and in the same order, with spill stores and reloads in between (\<open>weave\<close>): each
  instruction keeps its form, and each of its operands keeps its tag and id or was a
  virtual register and is a physical register now. The pass does complete when, in
  addition, the frame allocator is latched before the first virtual register operand
  (\<open>framed_prefix\<close>), every virtual register id is an index of \<^verbatim>\<open>offset_arr\<close>
  and there is a physical register.
\<close>

theorem no_virtual_registers_remain:
  assumes "list_all (well_formed H) insns"
  shows "(allocate_registers H (Some insns) n = Inr (Some out) \<longrightarrow>
            list_all no_virtual out \<and> weave insns out) \<and>
         (0 < n \<and> framed_prefix insns \<and> list_all (ids_in_range H) insns \<longrightarrow>
            completes (allocate_registers H (Some insns) n))"
proof (intro conjI impI)
  assume run: "allocate_registers H (Some insns) n = Inr (Some out)"
  then obtain st where f: "for_each H (nat n) (initial_state (nat n) insns) = Inr st"
    and out: "out = stream_of st"
    by (auto simp: allocate_registers_def split: if_splits sum.splits)
  have "pass_inv H (initial_state (nat n) insns)"
    using assms by (simp add: pass_inv_def initial_state_def)
  with f have "pass_inv H st"
    unfolding for_each_def by (rule iterations_pass_inv)
  then show "list_all no_virtual out"
    by (simp add: out stream_of_def pass_inv_def for_each_exhausts [OF f])
  from run show "weave insns out" by (rule output_weave)
next
  assume "0 < n \<and> framed_prefix insns \<and> list_all (ids_in_range H) insns"
  then show "completes (allocate_registers H (Some insns) n)"
    by (auto intro: framed_completes)
qed

theorem no_virtual_registers_remain_witness:
  "list_all (well_formed example_iloc) reload_example \<and>
   framed_prefix reload_example \<and>
   list_all (ids_in_range example_iloc) reload_example \<and>
   completes (allocate_registers example_iloc (Some reload_example) 2) \<and>
   length (output_of (allocate_registers example_iloc (Some reload_example) 2)) = 11 \<and>
   list_all no_virtual (output_of (allocate_registers example_iloc (Some reload_example) 2)) \<and>
   weave reload_example (output_of (allocate_registers example_iloc (Some reload_example) 2))"
proof -
  let ?run = "allocate_registers example_iloc (Some reload_example) 2"
  have wf: "list_all (well_formed example_iloc) reload_example"
    by code_simp
  have fp: "framed_prefix reload_example"
    by code_simp
  have ids: "list_all (ids_in_range example_iloc) reload_example"
    by code_simp
  have len: "length (output_of ?run) = 11"
    by code_simp
  note main = no_virtual_registers_remain [OF wf, where n = 2]
  from main fp ids have c: "completes ?run"
    by simp
  then obtain out where run: "?run = Inr (Some out)"
    by (auto simp: completes_def split: sum.splits option.splits)
  with main [where out = out] have "list_all no_virtual out \<and> weave reload_example out"
    by simp
  with wf fp ids c len run show ?thesis
    by (simp add: output_of_def)
qed

text \<open>
  C2 fails on the code. Two virtual registers are live across a call and are both read,
  for the last time, by the instruction after it. The call spills register 1 (from
  physical register 0, to offset -8) and register 2 (from physical register 1, to offset
  -16). At the read, register 1 is reloaded into physical register 0, which the loop
  over the read registers releases at once because register 1 has no later use; so
  register 2 is reloaded into physical register 0 as well. In the list the reload of
  register 2 stands in front of the reload of register 1 (each splice goes directly
  after the previous instruction), and the instruction reads physical register 0 for
  both operands: when it executes, that register holds the value of register 1, not
  of register 2.
\<close>

theorem reloads_share_a_register:
  "drop 5 (output_of (allocate_registers example_iloc (Some reload_example) 2)) =
     [store_ai 1 (-16), store_ai 0 (-8), call_insn,
      load_ai (-16) 0, load_ai (-8) 0,
      ILOCInsn_new_3op (OTHER_FORM 1)
        (physical_register 0) (physical_register 0) (physical_register 0)] \<and>
   offset_arr (state_of (for_each example_iloc 2 (initial_state 2 reload_example))) 1 = -8 \<and>
   offset_arr (state_of (for_each example_iloc 2 (initial_state 2 reload_example))) 2 = -16"
  by code_simp

text \<open>
  C3. \<open>allocate\<close> returns whenever a register is free, and in every state in
  which no operation fails (\<open>ready\<close>). When it returns: if some register is free,
  the free register of lowest index is claimed and nothing else changes. If none is free,
  the register returned is the first one whose resident has the largest next-use
  distance from the current instruction (every register's distance is at most its
  distance, every lower register's distance is strictly smaller), and the state is the
  one after spilling that register, with the register then given to the new virtual
  register. In particular, with four registers whose residents have the distances
  3, 7, 7, 1, register 1 is evicted.
\<close>

theorem allocate_policy:
  "(allocate H k vr st = Inr (pr, st') \<longrightarrow>
      ((\<exists>i<k. phys_reg_map st ! i = -1) \<longrightarrow>
         (\<exists>i<k. pr = int i \<and> phys_reg_map st ! i = -1 \<and>
                (\<forall>j<i. phys_reg_map st ! j \<noteq> -1) \<and>
                st' = st\<lparr>phys_reg_map := (phys_reg_map st)[i := vr]\<rparr>)) \<and>
      ((\<forall>i<k. phys_reg_map st ! i \<noteq> -1) \<longrightarrow>
         (\<exists>p<k. pr = int p \<and>
                (\<forall>j<k. resident_dist H st j \<le> resident_dist H st p) \<and>
                (\<forall>j<p. resident_dist H st j < resident_dist H st p) \<and>
                (\<exists>s1. spill H (int p) st = Inr s1 \<and>
                      st' = s1\<lparr>phys_reg_map := (phys_reg_map s1)[p := vr]\<rparr>))) \<and>
      ((\<forall>i<k. phys_reg_map st ! i \<noteq> -1) \<and> k = 4 \<and>
       map (resident_dist H st) [0..<4] = [3, 7, 7, 1] \<longrightarrow> pr = 1)) \<and>
   ((\<exists>i<k. phys_reg_map st ! i = -1) \<longrightarrow> succeeds (allocate H k vr st)) \<and>
   (ready H k st \<and> entry_ok H vr \<longrightarrow> succeeds (allocate H k vr st))"
proof (intro conjI impI)
  assume run: "allocate H k vr st = Inr (pr, st')"
  {
    assume "\<exists>i<k. phys_reg_map st ! i = -1"
    then show "\<exists>i<k. pr = int i \<and> phys_reg_map st ! i = -1 \<and>
                  (\<forall>j<i. phys_reg_map st ! j \<noteq> -1) \<and>
                  st' = st\<lparr>phys_reg_map := (phys_reg_map st)[i := vr]\<rparr>"
      using allocate_free [OF run] by blast
  next
    assume "\<forall>i<k. phys_reg_map st ! i \<noteq> -1"
    then show "\<exists>p<k. pr = int p \<and>
                  (\<forall>j<k. resident_dist H st j \<le> resident_dist H st p) \<and>
                  (\<forall>j<p. resident_dist H st j < resident_dist H st p) \<and>
                  (\<exists>s1. spill H (int p) st = Inr s1 \<and>
                        st' = s1\<lparr>phys_reg_map := (phys_reg_map s1)[p := vr]\<rparr>)"
      by (rule allocate_full [OF run])
  next
    assume a: "(\<forall>i<k. phys_reg_map st ! i \<noteq> -1) \<and> k = 4 \<and>
          map (resident_dist H st) [0..<4] = [3, 7, 7, 1]"
    then have d: "resident_dist H st 0 = 3" "resident_dist H st 1 = 7"
      "resident_dist H st 2 = 7" "resident_dist H st 3 = 1"
      by (simp_all add: upt_rec numeral_eq_Suc)
    from a allocate_full [OF run] obtain p where p: "p < 4" "pr = int p"
      "\<forall>j<4. resident_dist H st j \<le> resident_dist H st p"
      "\<forall>j<p. resident_dist H st j < resident_dist H st p"
      by auto
    from p(1) have "p = 0 \<or> p = 1 \<or> p = 2 \<or> p = 3" by arith
    then have "p = 1"
    proof (elim disjE)
      assume "p = 0"
      with p(3) have "resident_dist H st 1 \<le> resident_dist H st 0" by simp
      with d show ?thesis by simp
    next
      assume "p = 1" then show ?thesis .
    next
      assume "p = 2"
      with p(4) have "resident_dist H st 1 < resident_dist H st 2" by simp
      with d show ?thesis by simp
    next
      assume "p = 3"
      with p(3) have "resident_dist H st 1 \<le> resident_dist H st 3" by simp
      with d show ?thesis by simp
    qed
    with p(2) show "pr = 1" by simp
  }
next
  assume "\<exists>i<k. phys_reg_map st ! i = -1"
  then show "succeeds (allocate H k vr st)" by (rule allocate_free_succeeds)
next
  assume "ready H k st \<and> entry_ok H vr"
  then obtain pr1 s1 where "allocate H k vr st = Inr (pr1, s1)"
    using allocate_ready [of H k st vr] by blast
  then show "succeeds (allocate H k vr st)" by (simp add: succeeds_def)
qed

theorem allocate_policy_witness:
  "allocated (allocate example_iloc 4 30 furthest_example) =
     Some (1, [10, 30, 12, 13],
           [ILOCInsn_new_3op STORE_AI (physical_register 1) base_register (int_const (-8))]) \<and>
   map (resident_dist example_iloc furthest_example) [0..<4] = [3, 7, 7, 1] \<and>
   resident_dist example_iloc furthest_example 0 < resident_dist example_iloc furthest_example 1 \<and>
   resident_dist example_iloc furthest_example 2 \<le> resident_dist example_iloc furthest_example 1 \<and>
   allocated (allocate example_iloc 2 30 (furthest_example\<lparr>phys_reg_map := [10, -1]\<rparr>)) =
     Some (1, [10, 30], [])"
proof -
  let ?st = furthest_example
  have a: "allocated (allocate example_iloc 4 30 ?st) =
     Some (1, [10, 30, 12, 13],
           [ILOCInsn_new_3op STORE_AI (physical_register 1) base_register (int_const (-8))])"
    by code_simp
  then obtain st' where run: "allocate example_iloc 4 30 ?st = Inr (1, st')"
    by (auto simp: allocated_def split: sum.splits)
  have d: "map (resident_dist example_iloc ?st) [0..<4] = [3, 7, 7, 1]"
    by code_simp
  have full: "\<forall>i<4. phys_reg_map ?st ! i \<noteq> -1"
    by (simp add: furthest_example_def nth_Cons' )
  from allocate_policy [of example_iloc 4 30 ?st 1 st'] run full
  obtain p where p: "p < 4" "(1::int) = int p"
    "\<forall>j<4. resident_dist example_iloc ?st j \<le> resident_dist example_iloc ?st p"
    "\<forall>j<p. resident_dist example_iloc ?st j < resident_dist example_iloc ?st p"
    by blast
  from p(2) have p1: "p = 1" by simp
  from p(3) p1 have le: "resident_dist example_iloc ?st 2 \<le> resident_dist example_iloc ?st 1"
    by simp
  from p(4) p1 have lt: "resident_dist example_iloc ?st 0 < resident_dist example_iloc ?st 1"
    by simp
  have b: "allocated (allocate example_iloc 2 30 (?st\<lparr>phys_reg_map := [10, -1]\<rparr>)) =
     Some (1, [10, 30], [])"
    by code_simp
  from a d le lt b show ?thesis by simp
qed

text \<open>
  C4. For a call instruction, with the register file of size \<open>k\<close>: when the loop
  body has processed it, no register is resident. This holds whenever an instruction
  precedes the call; for a call at the very head of the list the code skips the spills
  (\<^verbatim>\<open>last_processed_insn\<close> is \<^verbatim>\<open>NULL\<close>), where the register file is still as
  the pass created it and a call has no virtual register operand. The call phase spills
  every resident register, one store each, in the order of the register indices:
  \<open>new\<close> is in list order, the newest store first, so its reverse is the order of
  the spills. In a state in which no operation fails (\<open>ready\<close>) the loop body does
  return.
\<close>

theorem call_clears_register_file:
  assumes "todo st \<noteq> []" and "form (hd (todo st)) = CALL" and "length (phys_reg_map st) = k"
  shows "(loop_body H k st = Inr st' \<and>
            (processed st \<noteq> [] \<or> (all_free (phys_reg_map st) \<and> no_virtual (hd (todo st)))) \<longrightarrow>
          all_free (phys_reg_map st')) \<and>
         (call_phase H k st = Inr st'' \<and> processed st \<noteq> [] \<longrightarrow>
          all_free (phys_reg_map st'') \<and>
          (\<exists>new. inserted st'' = new @ inserted st \<and> list_all (\<lambda>s. form s = STORE_AI) new \<and>
             rev (spilled_registers new) =
               map int (filter (\<lambda>i. phys_reg_map st ! i \<noteq> -1) [0..<k]))) \<and>
         (ready H k st \<longrightarrow> succeeds (loop_body H k st))"
proof (intro conjI impI)
  assume "loop_body H k st = Inr st' \<and>
    (processed st \<noteq> [] \<or> (all_free (phys_reg_map st) \<and> no_virtual (hd (todo st))))"
  with assms show "all_free (phys_reg_map st')"
    by (auto intro: loop_body_call_clears)
next
  assume c: "call_phase H k st = Inr st'' \<and> processed st \<noteq> []"
  with assms show "all_free (phys_reg_map st'')"
    by (auto intro: call_phase_clears(1))
  from c assms show "\<exists>new. inserted st'' = new @ inserted st \<and>
      list_all (\<lambda>s. form s = STORE_AI) new \<and>
      rev (spilled_registers new) = map int (filter (\<lambda>i. phys_reg_map st ! i \<noteq> -1) [0..<k])"
    by (auto dest: call_phase_clears(2))
next
  assume "ready H k st"
  from loop_body_ready [OF this assms(1)] show "succeeds (loop_body H k st)"
    by (auto simp: succeeds_def)
qed

theorem call_clears_register_file_witness:
  "todo call_example \<noteq> [] \<and> form (hd (todo call_example)) = CALL \<and>
   phys_reg_map call_example = [1, 2] \<and> processed call_example \<noteq> [] \<and>
   succeeds (loop_body example_iloc 2 call_example) \<and>
   all_free (phys_reg_map (state_of (loop_body example_iloc 2 call_example))) \<and>
   inserted (state_of (loop_body example_iloc 2 call_example)) =
     [store_ai 1 (-16), store_ai 0 (-8)]"
proof -
  have 1: "todo call_example \<noteq> []" by code_simp
  have 2: "form (hd (todo call_example)) = CALL" by code_simp
  have 3: "phys_reg_map call_example = [1, 2]" by code_simp
  have 4: "processed call_example \<noteq> []" by code_simp
  have 5: "succeeds (loop_body example_iloc 2 call_example)" by code_simp
  have 6: "inserted (state_of (loop_body example_iloc 2 call_example)) =
     [store_ai 1 (-16), store_ai 0 (-8)]" by code_simp
  from 5 obtain st' where b: "loop_body example_iloc 2 call_example = Inr st'"
    by (rule succeedsE)
  from 3 have len: "length (phys_reg_map call_example) = 2" by simp
  from call_clears_register_file [OF 1 2 len, of example_iloc st'] b 4
  have "all_free (phys_reg_map st')" by blast
  with 1 2 3 4 5 6 b show ?thesis by simp
qed

text \<open>
  C5, as amended. Every \<open>spill\<close> stores to a new slot, the frame reservation
  lowered by one word (\<open>next_offset\<close>), and records that offset for the virtual
  register it evicts, in place of an earlier one. \<open>ensure\<close> leaves the offset of the
  register it is called for as it is and, when the register is not resident and has an
  offset, splices in a load from that offset into the register it returns. Over one
  iteration of the loop an offset changes only when a store to the new offset was
  spliced in during that iteration (\<open>offsets_tracked\<close>).
\<close>

theorem spill_offsets:
  "(spill H pr st = Inr s1 \<longrightarrow>
      offset_arr s1 = (offset_arr st)(phys_reg_map st ! nat pr := next_offset H st) \<and>
      inserted s1 = store_ai pr (next_offset H st) # inserted st) \<and>
   (ensure H k vr st = Inr (pr2, s2) \<longrightarrow>
      offset_arr s2 vr = offset_arr st vr \<and>
      ((\<forall>i<k. phys_reg_map st ! i \<noteq> vr) \<and> offset_arr st vr \<noteq> -1 \<longrightarrow>
         (\<exists>rest. inserted s2 = load_ai (offset_arr st vr) pr2 # rest))) \<and>
   (loop_body H k st = Inr s3 \<longrightarrow> offsets_tracked st s3)"
  by (auto simp: spill_result(6) spill_result(8) ensure_reload(1)
      dest: ensure_reload(2) loop_body_tracked)

theorem spill_offsets_witness:
  "succeeds (spill example_iloc 0 call_example) \<and>
   phys_reg_map call_example ! 0 = 1 \<and>
   offset_arr call_example 1 = -1 \<and>
   next_offset example_iloc call_example = -8 \<and>
   offset_arr (state_of (spill example_iloc 0 call_example)) 1 = -8 \<and>
   inserted (state_of (spill example_iloc 0 call_example)) = [store_ai 0 (-8)]"
proof -
  have 1: "succeeds (spill example_iloc 0 call_example)" by code_simp
  have 2: "phys_reg_map call_example ! 0 = 1" by code_simp
  have 3: "offset_arr call_example 1 = -1" by code_simp
  have 4: "next_offset example_iloc call_example = -8" by code_simp
  have 5: "inserted call_example = []" by code_simp
  from 1 obtain s1 where r: "spill example_iloc 0 call_example = Inr s1" by (rule succeedsE)
  from spill_offsets [of example_iloc 0 call_example s1] r
  have "offset_arr s1 = (offset_arr call_example)
          (phys_reg_map call_example ! nat 0 := next_offset example_iloc call_example)"
    and "inserted s1 = store_ai 0 (next_offset example_iloc call_example) # inserted call_example"
    by blast+
  with 2 4 5 have "offset_arr s1 1 = -8" "inserted s1 = [store_ai 0 (-8)]" by simp_all
  with 1 2 3 4 r show ?thesis by simp
qed

text \<open>
  C5 as stated fails: an offset, once recorded, does change. Virtual register 1 is
  live across two calls. At the first call it is spilled to offset -8 and reloaded from
  there; at the second call it is spilled again, to the new offset -16, and the reload
  that follows reads offset -16.
\<close>

theorem offset_changes_on_second_spill:
  "offset_arr (state_of (iterations example_iloc 2 5 (initial_state 2 offsets_example))) 1 = -8 \<and>
   offset_arr (state_of (iterations example_iloc 2 7 (initial_state 2 offsets_example))) 1 = -16 \<and>
   output_of (allocate_registers example_iloc (Some offsets_example) 2) ! 4 = store_ai 0 (-8) \<and>
   output_of (allocate_registers example_iloc (Some offsets_example) 2) ! 6 = load_ai (-8) 0 \<and>
   output_of (allocate_registers example_iloc (Some offsets_example) 2) ! 9 = store_ai 0 (-16) \<and>
   output_of (allocate_registers example_iloc (Some offsets_example) 2) ! 12 = load_ai (-16) 0"
  by code_simp

text \<open>
  C6 fails on the code. The processing of a written register calls \<open>allocate\<close>
  directly, and \<open>allocate\<close> never looks for the register in the register file
  (only \<open>ensure\<close>, on the read path, does). With two physical registers and a
  virtual register 1 that is written twice, the first write puts it in physical register
  0 and the second one in physical register 1 as well: register 1 is resident in two
  physical registers at once. The read that follows finds it in physical register 0, so
  the instruction reads the value of the first write, not of the second:
  \<^verbatim>\<open>loadI 1 => p0; loadI 2 => p1; add p0, p0 => p0\<close>.
\<close>

theorem rewrite_gives_two_registers:
  "phys_reg_map (state_of (iterations example_iloc 2 1 (initial_state 2 rewrite_example))) = [1, -1] \<and>
   register_file_ok
     (phys_reg_map (state_of (iterations example_iloc 2 1 (initial_state 2 rewrite_example)))) \<and>
   phys_reg_map (state_of (iterations example_iloc 2 2 (initial_state 2 rewrite_example))) = [1, 1] \<and>
   \<not> register_file_ok
     (phys_reg_map (state_of (iterations example_iloc 2 2 (initial_state 2 rewrite_example)))) \<and>
   output_of (allocate_registers example_iloc (Some rewrite_example) 2) =
     [ILOCInsn_new_3op (OTHER_FORM 0) (int_const 1) (physical_register 0) empty_operand,
      ILOCInsn_new_3op (OTHER_FORM 0) (int_const 2) (physical_register 1) empty_operand,
      ILOCInsn_new_3op (OTHER_FORM 1)
        (physical_register 0) (physical_register 0) (physical_register 0)]"
  by code_simp

text \<open>
  C7. \<open>dist\<close> scans forward from the instruction after the given one. Lemma
  \<open>dist_first_reader\<close>: when a later instruction reads the register, the result is
  the step count to the first such instruction, at least 1. Lemma \<open>dist_no_reader\<close>:
  when none does, the result is \<^verbatim>\<open>MAX_VIRTUAL_REGS\<close>. The two results are not
  always distinct: a first read exactly \<^verbatim>\<open>MAX_VIRTUAL_REGS\<close> steps ahead gives the
  value that stands for "no later read". Whatever the constant is, \<open>Suc m\<close> here: when
  \<open>m\<close> instructions that do not read register \<open>v\<close> are followed by one that does,
  \<open>dist\<close> returns \<open>Suc m\<close>, and it returns \<open>Suc m\<close> as well when nothing follows
  them.
\<close>

theorem dist_sentinel_collides:
  "dist (example_iloc\<lparr>MAX_VIRTUAL_REGS := Suc m\<rparr>) v (replicate m nop @ [add3 v b c]) =
     int (MAX_VIRTUAL_REGS (example_iloc\<lparr>MAX_VIRTUAL_REGS := Suc m\<rparr>)) \<and>
   dist (example_iloc\<lparr>MAX_VIRTUAL_REGS := Suc m\<rparr>) v (replicate m nop) =
     int (MAX_VIRTUAL_REGS (example_iloc\<lparr>MAX_VIRTUAL_REGS := Suc m\<rparr>)) \<and>
   reads_vr (example_iloc\<lparr>MAX_VIRTUAL_REGS := Suc m\<rparr>) v (add3 v b c) \<and>
   \<not> list_ex (reads_vr (example_iloc\<lparr>MAX_VIRTUAL_REGS := Suc m\<rparr>) v) (replicate m nop)"
proof -
  let ?H = "example_iloc\<lparr>MAX_VIRTUAL_REGS := Suc m\<rparr>"
  have r: "reads_vr ?H v (add3 v b c)"
    by (rule add3_reads) (simp add: example_iloc_def)
  have 1: "dist ?H v (replicate m nop @ [add3 v b c]) = 1 + int (length (replicate m nop))"
    using replicate_nop_not_read r by (rule dist_first_reader)
  have 2: "dist ?H v (replicate m nop) = int (MAX_VIRTUAL_REGS ?H)"
    by (rule dist_no_reader) (rule replicate_nop_not_read)
  from 1 2 r show ?thesis by (simp add: replicate_nop_not_read)
qed

text \<open>
  C8, as amended. With no physical register the run ends at once in the configuration
  error, whatever the list is: no instruction is processed and nothing is changed. With
  at least one physical register the pass runs to completion on every list in which no
  instruction up to and including the \<^verbatim>\<open>PUSH\<close> of the first prologue
  (\<^verbatim>\<open>PUSH\<close>, \<^verbatim>\<open>I2I\<close>, \<^verbatim>\<open>ADD_I\<close>) has a virtual register operand, and in
  which every virtual register id is at least 0 and below \<^verbatim>\<open>MAX_VIRTUAL_REGS\<close>.
\<close>

theorem failure_modes:
  "(n \<le> 0 \<longrightarrow> allocate_registers H list n = Inl (ConfigError config_message)) \<and>
   (0 < n \<and> framed_prefix insns \<and> list_all (ids_in_range H) insns \<longrightarrow>
      completes (allocate_registers H (Some insns) n))"
proof (intro conjI impI)
  assume "n \<le> 0"
  then show "allocate_registers H list n = Inl (ConfigError config_message)"
    by (simp add: allocate_registers_def)
next
  assume "0 < n \<and> framed_prefix insns \<and> list_all (ids_in_range H) insns"
  then show "completes (allocate_registers H (Some insns) n)"
    by (auto intro: framed_completes)
qed

theorem failure_modes_witness:
  "allocate_registers example_iloc (Some unframed_example) 0 = Inl (ConfigError config_message) \<and>
   framed_prefix (prologue 0 @ [load_i 1 1, load_i 2 2, add3 1 2 3]) \<and>
   list_all (ids_in_range example_iloc) (prologue 0 @ [load_i 1 1, load_i 2 2, add3 1 2 3]) \<and>
   completes (allocate_registers example_iloc
     (Some (prologue 0 @ [load_i 1 1, load_i 2 2, add3 1 2 3])) 1)"
proof -
  let ?insns = "prologue 0 @ [load_i 1 1, load_i 2 2, add3 1 2 3]"
  have 1: "framed_prefix ?insns" by code_simp
  have 2: "list_all (ids_in_range example_iloc) ?insns" by code_simp
  from failure_modes [of 0 example_iloc "Some unframed_example"]
  have 3: "allocate_registers example_iloc (Some unframed_example) 0 =
      Inl (ConfigError config_message)" by simp
  from failure_modes [of 1 example_iloc _ ?insns] 1 2
  have "completes (allocate_registers example_iloc (Some ?insns) 1)" by simp
  with 1 2 3 show ?thesis by simp
qed

text \<open>
  C8 as stated fails: with one physical register and a list that has no prologue the
  first spill dereferences \<^verbatim>\<open>local_allocator\<close>, which is still \<^verbatim>\<open>NULL\<close>, and
  the run ends there.
\<close>

theorem null_dereference_without_prologue:
  "allocate_registers example_iloc (Some unframed_example) 1 = Inl NullDereference"
  by code_simp

text \<open>
  C9, as amended. Each \<open>insert_spill\<close> lowers the immediate of the frame allocator
  instruction by exactly one word (as far as a C \<^verbatim>\<open>int\<close> holds the result) and
  returns the new immediate as the offset of the slot. Across the pass, for any list and
  any prologue in it, say at index \<open>i\<close>: from the iteration that meets the prologue
  up to the next prologue (or the end of the list), that is after \<open>i + m + 1\<close>
  iterations when none of the \<open>m\<close> instructions after the \<^verbatim>\<open>PUSH\<close> begins a
  prologue, the immediate of the frame allocator is its value in the input less
  \<^verbatim>\<open>WORD_SIZE\<close> times the number of stores spliced in since the prologue was met;
  when the input value is not positive, the magnitude is the input magnitude plus that
  product, so it never shrinks. Up to the first prologue of the list no store is spliced
  in, so for the first frame that number is the number of all stores spliced in so far.
  Instructions in front of the prologue (a label) and a \<^verbatim>\<open>PUSH\<close> that begins no
  prologue (an argument) are allowed.
\<close>

theorem frame_reservation_grows:
  "(la_valid st \<and> insert_spill H pr st = Inr (off, s1) \<longrightarrow>
      off = frame_imm s1 \<and> frame_imm s1 = to_int (frame_imm st - int (WORD_SIZE H)) \<and>
      (- 2147483648 \<le> frame_imm st - int (WORD_SIZE H) \<and>
       frame_imm st - int (WORD_SIZE H) < 2147483648 \<longrightarrow>
         frame_imm s1 = frame_imm st - int (WORD_SIZE H))) \<and>
   (iterations H k i (initial_state k insns) = Inr si \<and>
    prologue_at (drop i insns) \<and> no_prologue m (drop (Suc i) insns) \<and>
    iterations H k (i + Suc m) (initial_state k insns) = Inr s2 \<longrightarrow>
      (\<exists>n. store_count (stream_of s2) = store_count (stream_of si) + n \<and>
           (no_prologue i insns \<longrightarrow> store_count (stream_of si) = store_count insns) \<and>
           (op_imm (op1 (insns ! (i + 2))) < 2147483648 \<and>
            - 2147483648 \<le> op_imm (op1 (insns ! (i + 2))) - int (WORD_SIZE H) * int n \<longrightarrow>
              frame_imm s2 = op_imm (op1 (insns ! (i + 2))) - int (WORD_SIZE H) * int n \<and>
              (op_imm (op1 (insns ! (i + 2))) \<le> 0 \<longrightarrow>
                 \<bar>frame_imm s2\<bar> =
                   \<bar>op_imm (op1 (insns ! (i + 2)))\<bar> + int (WORD_SIZE H) * int n))))"
proof (intro conjI impI)
  assume a: "la_valid st \<and> insert_spill H pr st = Inr (off, s1)"
  then have v: "la_valid st" and i: "insert_spill H pr st = Inr (off, s1)" by simp_all
  from insert_spill_one_word(1) [OF i v] show "off = frame_imm s1" .
  from insert_spill_one_word(2) [OF i v]
  show "frame_imm s1 = to_int (frame_imm st - int (WORD_SIZE H))" .
  assume "- 2147483648 \<le> frame_imm st - int (WORD_SIZE H) \<and>
       frame_imm st - int (WORD_SIZE H) < 2147483648"
  with insert_spill_one_word(3) [OF i v]
  show "frame_imm s1 = frame_imm st - int (WORD_SIZE H)" by simp
next
  assume "iterations H k i (initial_state k insns) = Inr si \<and>
    prologue_at (drop i insns) \<and> no_prologue m (drop (Suc i) insns) \<and>
    iterations H k (i + Suc m) (initial_state k insns) = Inr s2"
  then have i: "iterations H k i (initial_state k insns) = Inr si"
    and p: "prologue_at (drop i insns)" and np: "no_prologue m (drop (Suc i) insns)"
    and it: "iterations H k (i + Suc m) (initial_state k insns) = Inr s2" by blast+
  show "\<exists>n. store_count (stream_of s2) = store_count (stream_of si) + n \<and>
           (no_prologue i insns \<longrightarrow> store_count (stream_of si) = store_count insns) \<and>
           (op_imm (op1 (insns ! (i + 2))) < 2147483648 \<and>
            - 2147483648 \<le> op_imm (op1 (insns ! (i + 2))) - int (WORD_SIZE H) * int n \<longrightarrow>
              frame_imm s2 = op_imm (op1 (insns ! (i + 2))) - int (WORD_SIZE H) * int n \<and>
              (op_imm (op1 (insns ! (i + 2))) \<le> 0 \<longrightarrow>
                 \<bar>frame_imm s2\<bar> =
                   \<bar>op_imm (op1 (insns ! (i + 2)))\<bar> + int (WORD_SIZE H) * int n))"
    by (rule frame_pass [OF i p np it])
qed

theorem frame_reservation_grows_witness:
  "la_valid call_example \<and> frame_imm call_example = 0 \<and>
   (case insert_spill example_iloc 0 call_example of
      Inl e \<Rightarrow> False | Inr (off, s1) \<Rightarrow> off = -8 \<and> frame_imm s1 = -8) \<and>
   succeeds (iterations example_iloc 1 1 (initial_state 1 frames_example)) \<and>
   prologue_at (drop 1 frames_example) \<and>
   no_prologue 6 (drop (Suc 1) frames_example) \<and>
   no_prologue 1 frames_example \<and>
   succeeds (iterations example_iloc 1 8 (initial_state 1 frames_example)) \<and>
   store_count frames_example = 0 \<and>
   store_count (stream_of (state_of (iterations example_iloc 1 8 (initial_state 1 frames_example)))) = 2 \<and>
   op_imm (op1 (frames_example ! 3)) = -16 \<and>
   frame_imm (state_of (iterations example_iloc 1 8 (initial_state 1 frames_example))) = -32"
proof -
  let ?init = "initial_state 1 frames_example"
  have v: "la_valid call_example" by code_simp
  have f0: "frame_imm call_example = 0" by code_simp
  have "succeeds (insert_spill example_iloc 0 call_example)" by code_simp
  then obtain r where "insert_spill example_iloc 0 call_example = Inr r" by (rule succeedsE)
  then obtain off s1 where sp: "insert_spill example_iloc 0 call_example = Inr (off, s1)"
    by (cases r) simp
  have w: "WORD_SIZE example_iloc = 8" by (simp add: example_iloc_def)
  from frame_reservation_grows [of call_example example_iloc 0 off s1] v sp
  have "off = frame_imm s1"
    and "- 2147483648 \<le> frame_imm call_example - int (WORD_SIZE example_iloc) \<and>
       frame_imm call_example - int (WORD_SIZE example_iloc) < 2147483648 \<longrightarrow>
         frame_imm s1 = frame_imm call_example - int (WORD_SIZE example_iloc)"
    by blast+
  with f0 w have a: "off = -8" "frame_imm s1 = -8" by simp_all
  have 1: "succeeds (iterations example_iloc 1 1 ?init)" by code_simp
  have 2: "prologue_at (drop 1 frames_example)" by code_simp
  have 3: "no_prologue 6 (drop (Suc 1) frames_example)" by code_simp
  have 4: "no_prologue 1 frames_example" by code_simp
  have 5: "succeeds (iterations example_iloc 1 8 ?init)" by code_simp
  have 6: "store_count frames_example = 0" by code_simp
  have 7: "store_count (stream_of (state_of (iterations example_iloc 1 8 ?init))) = 2"
    by code_simp
  have 8: "op_imm (op1 (frames_example ! 3)) = -16" by code_simp
  from 1 obtain si where ri: "iterations example_iloc 1 1 ?init = Inr si" by (rule succeedsE)
  from 5 obtain s2 where r2: "iterations example_iloc 1 8 ?init = Inr s2" by (rule succeedsE)
  then have r2': "iterations example_iloc 1 (1 + Suc 6) ?init = Inr s2" by simp
  from frame_reservation_grows [of _ example_iloc _ _ _ 1 1 frames_example si 6 s2]
    ri 2 3 r2'
  obtain n where n: "store_count (stream_of s2) = store_count (stream_of si) + n"
    "no_prologue 1 frames_example \<longrightarrow> store_count (stream_of si) = store_count frames_example"
    "op_imm (op1 (frames_example ! (1 + 2))) < 2147483648 \<and>
       - 2147483648 \<le> op_imm (op1 (frames_example ! (1 + 2))) -
          int (WORD_SIZE example_iloc) * int n \<longrightarrow>
     frame_imm s2 = op_imm (op1 (frames_example ! (1 + 2))) -
          int (WORD_SIZE example_iloc) * int n"
    by blast
  from n(1) n(2) 4 6 7 r2 have "n = 2" by (simp add: state_of_def)
  moreover have "(1::nat) + 2 = 3" by simp
  ultimately have "frame_imm s2 = -32" using n(3) 8 w by (simp only:) simp
  with v f0 sp a 1 2 3 4 5 6 7 8 r2 show ?thesis by (simp add: state_of_def)
qed

text \<open>
  C9 as stated fails: the magnitude of the reservation is not the space of the spill
  slots alone. The frame allocator of the input reserves 16 bytes already; after the
  pass has created one spill slot the immediate is -24, not -8.
\<close>

theorem frame_not_word_times_slots:
  "frame_imm (state_of (for_each example_iloc 1 (initial_state 1 frame_example))) = -24 \<and>
   store_count (stream_of (state_of (for_each example_iloc 1 (initial_state 1 frame_example)))) = 1 \<and>
   WORD_SIZE example_iloc = 8 \<and>
   \<bar>frame_imm (state_of (for_each example_iloc 1 (initial_state 1 frame_example)))\<bar> \<noteq>
     int (WORD_SIZE example_iloc) *
     int (store_count (stream_of (state_of (for_each example_iloc 1 (initial_state 1 frame_example)))))"
  by code_simp

text \<open>
  C10. With a null list pointer and at least one physical register,
  \<open>allocate_registers\<close> returns normally: no error, and nothing to change.
\<close>

theorem null_list_returns:
  "0 < n \<Longrightarrow> allocate_registers H None n = Inr None"
  by (simp add: allocate_registers_def)

theorem null_list_returns_witness:
  "(0::int) < 1 \<and> allocate_registers example_iloc None 1 = Inr None"
  using null_list_returns [of 1 example_iloc] by simp


end
